theory Spec2Isabelle
  imports Main "HOL-Library.Multiset"
begin

section \<open>Python values and list primitives used by Heap.py\<close>

text \<open>
  The two exception classes that the class raises, each with its message.
  IndexError is also what a list subscript outside the list raises.
\<close>

datatype exc = IndexError string | ValueError string

text \<open>
  A Python subscript \<open>xs[i]\<close> takes any integer: a negative one counts from the end,
  and one that falls outside the list on either side raises IndexError. \<open>position\<close>
  is the list position the subscript denotes, when there is one.
\<close>

definition position :: "int list \<Rightarrow> int \<Rightarrow> nat option" where
  "position xs i =
     (if 0 \<le> i \<and> i < int (length xs) then Some (nat i)
      else if i < 0 \<and> - int (length xs) \<le> i then Some (nat (int (length xs) + i))
      else None)"

definition getitem :: "int list \<Rightarrow> int \<Rightarrow> exc + int" where
  "getitem xs i =
     (case position xs i of
        None \<Rightarrow> Inl (IndexError ''list index out of range'')
      | Some k \<Rightarrow> Inr (xs ! k))"

definition setitem :: "int list \<Rightarrow> int \<Rightarrow> int \<Rightarrow> exc + int list" where
  "setitem xs i v =
     (case position xs i of
        None \<Rightarrow> Inl (IndexError ''list assignment index out of range'')
      | Some k \<Rightarrow> Inr (xs[k := v]))"

text \<open>\<open>xs.index(v)\<close>: the first position holding \<open>v\<close>; Python raises ValueError when there is none.\<close>

fun list_index :: "int list \<Rightarrow> int \<Rightarrow> nat option" where
  "list_index [] v = None"
| "list_index (x # xs) v = (if x = v then Some 0 else map_option Suc (list_index xs v))"

text \<open>\<open>xs.pop()\<close> drops the last element and raises IndexError on an empty list.\<close>

definition list_pop :: "int list \<Rightarrow> exc + int list" where
  "list_pop xs = (if xs = [] then Inl (IndexError ''pop from empty list'') else Inr (butlast xs))"

text \<open>\<open>range(start, -1, -1)\<close>: start, start - 1, ..., 0; empty when start is negative.\<close>

definition range_down :: "int \<Rightarrow> int list" where
  "range_down start = rev [0..start]"

text \<open>\<open>str\<close> of an integer, for the f-string in \<open>replace\<close>.\<close>

definition digit_char :: "nat \<Rightarrow> char" where
  "digit_char d = ''0123456789'' ! d"

function str_nat :: "nat \<Rightarrow> string" where
  "str_nat n = (if n < 10 then [digit_char n] else str_nat (n div 10) @ [digit_char (n mod 10)])"
  by pat_completeness auto
termination
  by (relation "measure (\<lambda>n. n)") auto

definition str_int :: "int \<Rightarrow> string" where
  "str_int i = (if i < 0 then CHR ''-'' # str_nat (nat (- i)) else str_nat (nat i))"

text \<open>
  Python's truth test. \<open>peek\<close> tests the attribute \<open>self.is_empty\<close> itself, which is a
  bound method object, not the boolean that calling it returns; an object with neither
  \<open>__bool__\<close> nor \<open>__len__\<close> is true.
\<close>

datatype pyobj = PyBool bool | PyBoundMethod

fun truthy :: "pyobj \<Rightarrow> bool" where
  "truthy (PyBool b) = b"
| "truthy PyBoundMethod = True"


section \<open>The class Heap\<close>

record heap =
  arr :: "int list"
  is_min_heap :: bool

text \<open>
  A method that mutates \<open>self\<close> is a function from the object before the call to the
  outcome (the returned value, or the exception raised) paired with the object after
  the call: an exception keeps whatever was written before it was raised.
\<close>

type_synonym 'a outcome = "(exc + 'a) \<times> heap"

definition heap_left :: "int \<Rightarrow> int" where
  "heap_left index = (index * 2) + 1"

definition heap_right :: "int \<Rightarrow> int" where
  "heap_right index = (index * 2) + 2"

definition heap_parent :: "int \<Rightarrow> int" where
  "heap_parent index = (index - 1) div 2"

text \<open>
  \<open>_swap\<close>: the right-hand side \<open>(arr[b], arr[a])\<close> is read first, then \<open>arr[a]\<close> and
  \<open>arr[b]\<close> are assigned in this order.
\<close>

definition heap_swap :: "int \<Rightarrow> int \<Rightarrow> heap \<Rightarrow> unit outcome" where
  "heap_swap a b h =
     (case getitem (arr h) b of
        Inl e \<Rightarrow> (Inl e, h)
      | Inr y \<Rightarrow>
         (case getitem (arr h) a of
            Inl e \<Rightarrow> (Inl e, h)
          | Inr x \<Rightarrow>
             (case setitem (arr h) a y of
                Inl e \<Rightarrow> (Inl e, h)
              | Inr xs \<Rightarrow>
                 (case setitem xs b x of
                    Inl e \<Rightarrow> (Inl e, h\<lparr>arr := xs\<rparr>)
                  | Inr ys \<Rightarrow> (Inr (), h\<lparr>arr := ys\<rparr>)))))"

text \<open>\<open>_compare\<close> reads only; it has priority when strictly smaller (min) or strictly greater (max).\<close>

definition heap_compare :: "int \<Rightarrow> int \<Rightarrow> heap \<Rightarrow> exc + bool" where
  "heap_compare a b h =
     (case getitem (arr h) a of
        Inl e \<Rightarrow> Inl e
      | Inr x \<Rightarrow>
         (case getitem (arr h) b of
            Inl e \<Rightarrow> Inl e
          | Inr y \<Rightarrow> Inr (if is_min_heap h then x < y else x > y)))"

definition heap_size :: "heap \<Rightarrow> int" where
  "heap_size h = int (length (arr h))"

definition is_empty :: "heap \<Rightarrow> bool" where
  "is_empty h = (length (arr h) = 0)"

text \<open>
  \<open>heapify_down\<close>. Each \<open>and\<close> short-circuits, so \<open>_compare\<close> runs only when the child
  index is below the parameter \<open>size\<close> (here \<open>sz\<close>); an IndexError raised by a subscript leaves the call at once.
\<close>

function heapify_down :: "int \<Rightarrow> int \<Rightarrow> heap \<Rightarrow> unit outcome" where
  "heapify_down index sz h =
     (let cumulative = index;
          left = heap_left index;
          right = heap_right index
      in case (if left < sz then heap_compare left cumulative h else Inr False) of
           Inl e \<Rightarrow> (Inl e, h)
         | Inr c1 \<Rightarrow>
            (let cumulative = (if c1 then left else cumulative)
             in case (if right < sz then heap_compare right cumulative h else Inr False) of
                  Inl e \<Rightarrow> (Inl e, h)
                | Inr c2 \<Rightarrow>
                   (let cumulative = (if c2 then right else cumulative)
                    in if cumulative \<noteq> index then
                         (case heap_swap index cumulative h of
                            (Inl e, h') \<Rightarrow> (Inl e, h')
                          | (Inr u, h') \<Rightarrow> heapify_down cumulative sz h')
                       else (Inr (), h))))"
  by pat_completeness auto

termination
  by (relation "measure (\<lambda>(index, sz, h).
        if 0 \<le> index then nat (sz - index)
        else nat sz + 1 + nat (int (length (arr h)) + index))")
     (auto simp: heap_left_def heap_right_def heap_compare_def heap_swap_def getitem_def
        setitem_def position_def split: if_splits sum.splits option.splits)

declare heapify_down.simps [simp del]

text \<open>\<open>heapify_up\<close>: the while loop, one iteration per unfolding; \<open>break\<close> is the return.\<close>

function heapify_up :: "int \<Rightarrow> heap \<Rightarrow> unit outcome" where
  "heapify_up index h =
     (if index > 0 then
        (let parent = heap_parent index
         in case heap_compare index parent h of
              Inl e \<Rightarrow> (Inl e, h)
            | Inr c \<Rightarrow>
               if c then
                 (case heap_swap index parent h of
                    (Inl e, h') \<Rightarrow> (Inl e, h')
                  | (Inr u, h') \<Rightarrow> heapify_up parent h')
               else (Inr (), h))
      else (Inr (), h))"
  by pat_completeness auto
termination
  by (relation "measure (\<lambda>(index, h). nat index)") (auto simp: heap_parent_def)

declare heapify_up.simps [simp del]

text \<open>
  \<open>build_heap\<close>: the for loop over \<open>range(start_index, -1, -1)\<close>; \<open>self.size\<close> is read
  again at every iteration.
\<close>

fun build_heap_loop :: "int list \<Rightarrow> heap \<Rightarrow> unit outcome" where
  "build_heap_loop [] h = (Inr (), h)"
| "build_heap_loop (i # rest) h =
     (case heapify_down i (heap_size h) h of
        (Inl e, h') \<Rightarrow> (Inl e, h')
      | (Inr u, h') \<Rightarrow> build_heap_loop rest h')"

definition build_heap :: "heap \<Rightarrow> unit outcome" where
  "build_heap h =
     (let start_index = (heap_size h div 2) - 1
      in build_heap_loop (range_down start_index) h)"

text \<open>\<open>__init__\<close>: \<open>list(arr)\<close> is a new list with the elements of the argument.\<close>

definition init :: "int list \<Rightarrow> bool \<Rightarrow> unit outcome" where
  "init a isMinHeap = build_heap \<lparr>arr = a, is_min_heap = isMinHeap\<rparr>"

text \<open>
  \<open>peek\<close>: the condition is \<open>self.is_empty\<close>, the method object, without a call.
\<close>

definition peek :: "heap \<Rightarrow> exc + int option" where
  "peek h =
     (if truthy PyBoundMethod then Inr None
      else (case getitem (arr h) 0 of Inl e \<Rightarrow> Inl e | Inr x \<Rightarrow> Inr (Some x)))"

definition push :: "int \<Rightarrow> heap \<Rightarrow> unit outcome" where
  "push v h =
     (let h1 = h\<lparr>arr := arr h @ [v]\<rparr>
      in heapify_up (int (length (arr h1)) - 1) h1)"

definition pop :: "heap \<Rightarrow> int outcome" where
  "pop h =
     (if truthy (PyBool (is_empty h)) then (Inl (IndexError ''Pop from empty heap''), h)
      else
        (case getitem (arr h) 0 of
           Inl e \<Rightarrow> (Inl e, h)
         | Inr root \<Rightarrow>
            (let lastIndex = heap_size h - 1
             in case heap_swap 0 lastIndex h of
                  (Inl e, h1) \<Rightarrow> (Inl e, h1)
                | (Inr u, h1) \<Rightarrow>
                   (case list_pop (arr h1) of
                      Inl e \<Rightarrow> (Inl e, h1)
                    | Inr xs \<Rightarrow>
                       (let h2 = h1\<lparr>arr := xs\<rparr>
                        in if \<not> truthy (PyBool (is_empty h2)) then
                             (case heapify_down 0 (heap_size h2) h2 of
                                (Inl e, h3) \<Rightarrow> (Inl e, h3)
                              | (Inr u, h3) \<Rightarrow> (Inr root, h3))
                           else (Inr root, h2))))))"

definition push_pop :: "int \<Rightarrow> heap \<Rightarrow> int outcome" where
  "push_pop v h =
     (if truthy (PyBool (is_empty h)) then
        (case push v h of
           (Inl e, h1) \<Rightarrow> (Inl e, h1)
         | (Inr u, h1) \<Rightarrow> (Inr v, h1))
      else
        (case getitem (arr h) 0 of
           Inl e \<Rightarrow> (Inl e, h)
         | Inr root \<Rightarrow>
            if (is_min_heap h \<and> v > root) \<or> \<not> (is_min_heap h \<and> v < root) then
              (case setitem (arr h) 0 v of
                 Inl e \<Rightarrow> (Inl e, h)
               | Inr xs \<Rightarrow>
                  (let h1 = h\<lparr>arr := xs\<rparr>
                   in case heapify_down 0 (heap_size h1) h1 of
                        (Inl e, h2) \<Rightarrow> (Inl e, h2)
                      | (Inr u, h2) \<Rightarrow> (Inr root, h2)))
            else (Inr v, h)))"

text \<open>
  \<open>replace\<close>: the ValueError of \<open>list.index\<close> is caught and raised again with the
  message of the f-string. \<open>parent\<close> is computed before the test \<open>index > 0\<close>, and
  the \<open>and\<close> keeps \<open>_compare\<close> from running at the root.
\<close>

definition replace :: "int \<Rightarrow> int \<Rightarrow> heap \<Rightarrow> unit outcome" where
  "replace oldValue newValue h =
     (if truthy (PyBool (is_empty h)) then (Inl (ValueError ''Heap is empty''), h)
      else
        (case list_index (arr h) oldValue of
           None \<Rightarrow> (Inl (ValueError (str_int oldValue @ '' not found in heap'')), h)
         | Some k \<Rightarrow>
            (let index = int k
             in case setitem (arr h) index newValue of
                  Inl e \<Rightarrow> (Inl e, h)
                | Inr xs \<Rightarrow>
                   (let h1 = h\<lparr>arr := xs\<rparr>;
                        parent = heap_parent index
                    in case (if index > 0 then heap_compare index parent h1 else Inr False) of
                         Inl e \<Rightarrow> (Inl e, h1)
                       | Inr c \<Rightarrow>
                          if c then heapify_up index h1
                          else heapify_down index (heap_size h1) h1))))"

definition clear :: "heap \<Rightarrow> unit outcome" where
  "clear h = (Inr (), h\<lparr>arr := []\<rparr>)"

text \<open>\<open>items\<close>: \<open>self._arr.copy()\<close>, the elements in the order of the internal list.\<close>

definition items :: "heap \<Rightarrow> int list" where
  "items h = arr h"


section \<open>Popping until the heap is empty\<close>

lemma heap_swap_length:
  "heap_swap a b h = (r, h') \<Longrightarrow> length (arr h') = length (arr h)"
  by (auto simp: heap_swap_def setitem_def split: sum.splits option.splits)

lemma heapify_down_length:
  "heapify_down index sz h = (r, h') \<Longrightarrow> length (arr h') = length (arr h)"
proof (induction index sz h arbitrary: r h' rule: heapify_down.induct)
  case (1 index sz h)
  note IH = "1.IH"[OF refl refl refl _ refl _ refl _ _ refl]
  define c1 where "c1 = (if heap_left index < sz then heap_compare (heap_left index) index h else Inr False)"
  show ?case
  proof (cases c1)
    case (Inl e)
    then show ?thesis using "1.prems"
      by (subst (asm) heapify_down.simps) (simp add: Let_def flip: c1_def)
  next
    case b: (Inr b)
    define cu where "cu = (if b then heap_left index else index)"
    define c2 where "c2 = (if heap_right index < sz then heap_compare (heap_right index) cu h else Inr False)"
    show ?thesis
    proof (cases c2)
      case (Inl e)
      then show ?thesis using "1.prems" b
        by (subst (asm) heapify_down.simps) (simp add: Let_def flip: c1_def cu_def c2_def)
    next
      case ba: (Inr ba)
      define cf where "cf = (if ba then heap_right index else cu)"
      show ?thesis
      proof (cases "cf = index")
        case True
        then show ?thesis using "1.prems" b ba
          by (subst (asm) heapify_down.simps) (simp add: Let_def flip: c1_def cu_def c2_def cf_def)
      next
        case False
        obtain e y where sw: "heap_swap index cf h = (e, y)" by (cases "heap_swap index cf h")
        have ly: "length (arr y) = length (arr h)" using sw by (rule heap_swap_length)
        show ?thesis
        proof (cases e)
          case (Inl x)
          then show ?thesis using "1.prems" b ba False sw ly
            by (subst (asm) heapify_down.simps) (simp add: Let_def flip: c1_def cu_def c2_def cf_def)
        next
          case (Inr u)
          have rec: "heapify_down cf sz y = (r, h')" using "1.prems" b ba False sw Inr
            by (subst (asm) heapify_down.simps) (simp add: Let_def flip: c1_def cu_def c2_def cf_def)
          have "length (arr h') = length (arr y)"
          proof (rule IH)
            show "(if heap_left index < sz then heap_compare (heap_left index) index h
                   else Inr False) = Inr b"
              using b[unfolded c1_def] .
            show "(if heap_right index < sz
                   then heap_compare (heap_right index) (if b then heap_left index else index) h
                   else Inr False) = Inr ba"
              using ba[unfolded c2_def cu_def] .
            show "(if ba then heap_right index else if b then heap_left index else index) \<noteq> index"
              using False[unfolded cf_def cu_def] .
            show "(Inr u, y) =
                  heap_swap index (if ba then heap_right index else if b then heap_left index else index) h"
              using sw[unfolded Inr cf_def cu_def, symmetric] .
            show "heapify_down (if ba then heap_right index else if b then heap_left index else index)
                    sz y = (r, h')"
              using rec[unfolded cf_def cu_def] .
          qed
          then show ?thesis using ly by simp
        qed
      qed
    qed
  qed
qed


lemma pop_length:
  assumes "pop h = (Inr x, h')"
  shows "length (arr h') < length (arr h)"
proof -
  have ne: "arr h \<noteq> []" using assms by (auto simp: pop_def is_empty_def)
  obtain root where root: "getitem (arr h) 0 = Inr root"
    using assms ne by (auto simp: pop_def is_empty_def split: sum.splits)
  obtain e h1 where sw: "heap_swap 0 (heap_size h - 1) h = (e, h1)"
    by (cases "heap_swap 0 (heap_size h - 1) h")
  have l1: "length (arr h1) = length (arr h)" using sw by (rule heap_swap_length)
  then have ne1: "arr h1 \<noteq> []" using ne by auto
  define zs where "zs = butlast (arr h1)"
  have lp: "list_pop (arr h1) = Inr zs" using ne1 by (simp add: list_pop_def zs_def)
  have "length zs < length (arr h)" using l1 ne by (simp add: zs_def)
  moreover have "length (arr h') = length zs"
    using assms ne root sw lp
    by (auto simp: pop_def is_empty_def Let_def heap_size_def
          split: sum.splits prod.splits if_splits dest!: heapify_down_length)
  ultimately show ?thesis by simp
qed

text \<open>
  The loop a caller runs to empty a heap: \<open>while not h.is_empty(): out.append(h.pop())\<close>.
  It ends because every successful \<open>pop\<close> shortens the list, whatever the list holds.
\<close>

function pop_all :: "heap \<Rightarrow> int list outcome" where
  "pop_all h =
     (if truthy (PyBool (is_empty h)) then (Inr [], h)
      else
        (case pop h of
           (Inl e, h1) \<Rightarrow> (Inl e, h1)
         | (Inr x, h1) \<Rightarrow>
            (case pop_all h1 of
               (Inl e, h2) \<Rightarrow> (Inl e, h2)
             | (Inr out, h2) \<Rightarrow> (Inr (x # out), h2))))"
  by pat_completeness auto
termination
  by (relation "measure (\<lambda>h. length (arr h))") (auto dest: pop_length[OF sym])

declare pop_all.simps [simp del]


section \<open>Lists as objects: what the heap shares with its caller\<close>

text \<open>
  A Python list is an object, and two names may denote the same one. The store holds the
  list objects of a program, each at an address (its position in the store). \<open>list(xs)\<close> and
  \<open>xs.copy()\<close> make a new object with the elements of \<open>xs\<close>; the elements are integers,
  which no operation changes in place.
\<close>

type_synonym addr = nat

type_synonym store = "int list list"

definition list_copy :: "addr \<Rightarrow> store \<Rightarrow> addr \<times> store" where
  "list_copy a s = (length s, s @ [s ! a])"

text \<open>
  The object itself: \<open>_arr\<close> is a reference to a list of the store. \<open>heap_view\<close> reads the
  object with its list, which is the value the methods above work on.
\<close>

record heap_obj =
  arr_ref :: addr
  min_flag :: bool

definition heap_view :: "heap_obj \<Rightarrow> store \<Rightarrow> heap" where
  "heap_view ob s = \<lparr>arr = s ! arr_ref ob, is_min_heap = min_flag ob\<rparr>"

text \<open>
  \<open>__init__\<close> with the caller's list at address \<open>a\<close>: \<open>self._arr = list(arr)\<close> binds the
  attribute to a new list, and \<open>build_heap\<close> then works on that list in place.
\<close>

definition init_obj :: "addr \<Rightarrow> bool \<Rightarrow> store \<Rightarrow> (exc + unit) \<times> heap_obj \<times> store" where
  "init_obj a isMinHeap s =
     (case list_copy a s of
        (b, s1) \<Rightarrow>
          (let ob = \<lparr>arr_ref = b, min_flag = isMinHeap\<rparr>
           in case build_heap (heap_view ob s1) of
                (r, h') \<Rightarrow> (r, ob, s1[b := arr h'])))"

text \<open>
  A call of a public mutating method on the object. Every write of the class goes through
  \<open>self._arr\<close> (subscript assignment, \<open>append\<close>, \<open>pop\<close>, \<open>clear\<close>) and none binds the attribute
  again, so after the call, returned or raised, the list at \<open>arr_ref\<close> is the list the
  method left and the object is the same.
\<close>

datatype method_call = Push int | Pop | PushPop int | Replace int int | Clear | BuildHeap

fun after_call :: "method_call \<Rightarrow> heap \<Rightarrow> heap" where
  "after_call (Push v) h = snd (push v h)"
| "after_call Pop h = snd (pop h)"
| "after_call (PushPop v) h = snd (push_pop v h)"
| "after_call (Replace oldValue newValue) h = snd (replace oldValue newValue h)"
| "after_call Clear h = snd (clear h)"
| "after_call BuildHeap h = snd (build_heap h)"

definition call_obj :: "method_call \<Rightarrow> heap_obj \<Rightarrow> store \<Rightarrow> store" where
  "call_obj c ob s = s[arr_ref ob := arr (after_call c (heap_view ob s))]"

fun calls_obj :: "method_call list \<Rightarrow> heap_obj \<Rightarrow> store \<Rightarrow> store" where
  "calls_obj [] ob s = s"
| "calls_obj (c # cs) ob s = calls_obj cs ob (call_obj c ob s)"

text \<open>\<open>items\<close>: \<open>self._arr.copy()\<close>, a new list; the caller gets its address.\<close>

definition items_obj :: "heap_obj \<Rightarrow> store \<Rightarrow> addr \<times> store" where
  "items_obj ob s = list_copy (arr_ref ob) s"


section \<open>Properties: order, invariant, and the auxiliary notions of the proofs\<close>

text \<open>
  \<open>better\<close> is the test of \<open>_compare\<close> on two elements: strictly smaller in a min-heap,
  strictly greater in a max-heap. \<open>heap_order\<close> is the order of the invariant: priority
  over or equal to, \<open>\<le>\<close> in a min-heap and \<open>\<ge>\<close> in a max-heap.
\<close>

definition better :: "bool \<Rightarrow> int \<Rightarrow> int \<Rightarrow> bool" where
  "better mn x y = (if mn then x < y else x > y)"

definition heap_order :: "bool \<Rightarrow> int \<Rightarrow> int \<Rightarrow> bool" where
  "heap_order asc a b = (if asc then a \<le> b else a \<ge> b)"

text \<open>
  The heap invariant: for every index \<open>i\<close> below the size and every child index \<open>c\<close> among
  \<open>2i + 1\<close> and \<open>2i + 2\<close> that is below the size, the element at \<open>i\<close> has priority over or
  equal to the element at \<open>c\<close>.
\<close>

definition heap_invariant :: "heap \<Rightarrow> bool" where
  "heap_invariant h \<longleftrightarrow>
     (\<forall>i \<in> {0..<length (arr h)}. \<forall>c \<in> {2 * i + 1, 2 * i + 2}.
        c < length (arr h) \<longrightarrow> heap_order (is_min_heap h) (arr h ! i) (arr h ! c))"

text \<open>
  What \<open>_swap\<close> and the two tests of \<open>heapify_down\<close> compute when every index they use is a
  position of the list: the list with two elements exchanged, and the final value of
  \<open>cumulative\<close> for index \<open>i\<close> and logical size \<open>n\<close>.
\<close>

definition swap_list :: "int list \<Rightarrow> nat \<Rightarrow> nat \<Rightarrow> int list" where
  "swap_list xs a b = (xs[a := xs ! b])[b := xs ! a]"

definition select_child :: "bool \<Rightarrow> int list \<Rightarrow> nat \<Rightarrow> nat \<Rightarrow> nat" where
  "select_child mn xs i n =
     (let l = 2 * i + 1; r = 2 * i + 2;
          c1 = (if l < n \<and> better mn (xs ! l) (xs ! i) then l else i)
      in if r < n \<and> better mn (xs ! r) (xs ! c1) then r else c1)"

text \<open>
  The notions the proofs of the two sifts use, all relative to a logical size \<open>n\<close>.
  \<open>covers v j\<close>: the value \<open>v\<close> has priority over or equal to the children of \<open>j\<close>.
  \<open>heap_from k\<close>: every node from \<open>k\<close> on covers its children.
  \<open>down_pre k j\<close>, what holds while \<open>heapify_down\<close> is at \<open>j\<close>: every node from \<open>k\<close> on but \<open>j\<close>
  covers its children, and the parent of \<open>j\<close>, if it is at \<open>k\<close> or later, covers the children
  of \<open>j\<close>.
  \<open>up_pre j\<close>, what holds while \<open>heapify_up\<close> is at \<open>j\<close>: every parent has priority over or
  equal to every child but \<open>j\<close>, and the parent of \<open>j\<close> covers the children of \<open>j\<close>.
\<close>

definition covers :: "bool \<Rightarrow> int list \<Rightarrow> nat \<Rightarrow> int \<Rightarrow> nat \<Rightarrow> bool" where
  "covers mn xs n v j \<longleftrightarrow>
     (2 * j + 1 < n \<longrightarrow> heap_order mn v (xs ! (2 * j + 1))) \<and>
     (2 * j + 2 < n \<longrightarrow> heap_order mn v (xs ! (2 * j + 2)))"

definition heap_from :: "bool \<Rightarrow> int list \<Rightarrow> nat \<Rightarrow> nat \<Rightarrow> bool" where
  "heap_from mn xs n k \<longleftrightarrow> (\<forall>i. k \<le> i \<and> i < n \<longrightarrow> covers mn xs n (xs ! i) i)"

definition down_pre :: "bool \<Rightarrow> int list \<Rightarrow> nat \<Rightarrow> nat \<Rightarrow> nat \<Rightarrow> bool" where
  "down_pre mn xs n k j \<longleftrightarrow>
     (\<forall>i. k \<le> i \<and> i < n \<and> i \<noteq> j \<longrightarrow> covers mn xs n (xs ! i) i) \<and>
     (\<forall>p. k \<le> p \<and> (j = 2 * p + 1 \<or> j = 2 * p + 2) \<longrightarrow> covers mn xs n (xs ! p) j)"

definition up_pre :: "bool \<Rightarrow> int list \<Rightarrow> nat \<Rightarrow> nat \<Rightarrow> bool" where
  "up_pre mn xs n j \<longleftrightarrow>
     (\<forall>i. (2 * i + 1 < n \<and> 2 * i + 1 \<noteq> j \<longrightarrow> heap_order mn (xs ! i) (xs ! (2 * i + 1))) \<and>
          (2 * i + 2 < n \<and> 2 * i + 2 \<noteq> j \<longrightarrow> heap_order mn (xs ! i) (xs ! (2 * i + 2)))) \<and>
     (\<forall>p. (j = 2 * p + 1 \<or> j = 2 * p + 2) \<longrightarrow> covers mn xs n (xs ! p) j)"

text \<open>
  \<open>ancestor_or_self a j\<close>: the node \<open>a\<close> is \<open>j\<close> or lies on the way from \<open>j\<close> up to the root
  (\<open>j\<close>, its parent \<open>(j - 1) div 2\<close>, the parent of that, ...). \<open>heapify_down\<close> at \<open>a\<close> moves
  only elements at such \<open>j\<close>, \<open>heapify_up\<close> at \<open>j\<close> only elements at such \<open>a\<close>.
\<close>

function ancestor_or_self :: "nat \<Rightarrow> nat \<Rightarrow> bool" where
  "ancestor_or_self a j =
     (if j = a then True
      else if a < j then ancestor_or_self a ((j - 1) div 2)
      else False)"
  by pat_completeness auto
termination
  by (relation "measure (\<lambda>(a, j). j)") auto

declare ancestor_or_self.simps [simp del]

text \<open>
  What \<open>push_pop\<close> is documented to be equal to: \<open>push\<close>, and then \<open>pop\<close> on the heap that
  \<open>push\<close> left.
\<close>

definition push_then_pop :: "int \<Rightarrow> heap \<Rightarrow> int outcome" where
  "push_then_pop v h =
     (case push v h of
        (Inl e, h1) \<Rightarrow> (Inl e, h1)
      | (Inr u, h1) \<Rightarrow> pop h1)"

text \<open>The equations that evaluate the methods on a given heap.\<close>

lemmas heap_eval =
  init_def build_heap_def range_down_def heap_size_def is_empty_def
  heapify_down.simps heapify_up.simps heap_left_def heap_right_def heap_parent_def
  heap_compare_def heap_swap_def getitem_def setitem_def position_def list_pop_def
  push_def pop_def push_pop_def replace_def clear_def peek_def items_def
  Let_def upto.simps


section \<open>List primitives at positions inside the list\<close>

lemma position_int: "i < length xs \<Longrightarrow> position xs (int i) = Some i"
  by (simp add: position_def)

lemma getitem_int: "i < length xs \<Longrightarrow> getitem xs (int i) = Inr (xs ! i)"
  by (simp add: getitem_def position_int)

lemma setitem_int: "i < length xs \<Longrightarrow> setitem xs (int i) v = Inr (xs[i := v])"
  by (simp add: setitem_def position_int)

lemma heap_swap_int:
  "a < length (arr h) \<Longrightarrow> b < length (arr h) \<Longrightarrow>
   heap_swap (int a) (int b) h = (Inr (), h\<lparr>arr := swap_list (arr h) a b\<rparr>)"
  by (simp add: heap_swap_def getitem_int setitem_int swap_list_def)

lemma heap_compare_int:
  "a < length (arr h) \<Longrightarrow> b < length (arr h) \<Longrightarrow>
   heap_compare (int a) (int b) h = Inr (better (is_min_heap h) (arr h ! a) (arr h ! b))"
  by (simp add: heap_compare_def getitem_int better_def)

lemma heap_left_int: "heap_left (int i) = int (2 * i + 1)"
  by (simp add: heap_left_def)

lemma heap_right_int: "heap_right (int i) = int (2 * i + 2)"
  by (simp add: heap_right_def)

lemma heap_parent_int: "0 < i \<Longrightarrow> heap_parent (int i) = int ((i - 1) div 2)"
  by (simp add: heap_parent_def zdiv_int)

lemma heapify_down_step:
  assumes "n \<le> length (arr h)"
  shows "heapify_down (int i) (int n) h =
     (let c = select_child (is_min_heap h) (arr h) i n
      in if c \<noteq> i then heapify_down (int c) (int n) (h\<lparr>arr := swap_list (arr h) i c\<rparr>)
         else (Inr (), h))"
proof -
  define l r where "l = 2 * i + 1" and "r = 2 * i + 2"
  have lr: "heap_left (int i) = int l" "heap_right (int i) = int r" "l \<noteq> i" "r \<noteq> i" "l < r"
    by (simp_all add: l_def r_def heap_left_int heap_right_int)
  have sel: "select_child (is_min_heap h) (arr h) i n =
     (let c1 = (if l < n \<and> better (is_min_heap h) (arr h ! l) (arr h ! i) then l else i)
      in if r < n \<and> better (is_min_heap h) (arr h ! r) (arr h ! c1) then r else c1)"
    by (simp add: select_child_def l_def r_def)
  show ?thesis
  proof (cases "l < n")
    case False
    then have "\<not> r < n" using lr by simp
    with False show ?thesis
      by (subst heapify_down.simps) (simp add: lr sel)
  next
    case l: True
    then have il: "i < length (arr h)" "l < length (arr h)" using assms by (auto simp: l_def)
    show ?thesis
    proof (cases "r < n")
      case False
      then show ?thesis using l il
        by (subst heapify_down.simps)
           (simp add: lr sel Let_def heap_compare_int heap_swap_int)
    next
      case True
      then have "r < length (arr h)" using assms by auto
      then show ?thesis using l il True
        by (subst heapify_down.simps)
           (simp add: lr sel Let_def heap_compare_int heap_swap_int)
    qed
  qed
qed

lemma better_order: "better mn x y \<Longrightarrow> heap_order mn x y"
  by (simp add: better_def heap_order_def split: if_splits)

lemma not_better_order: "\<not> better mn x y \<Longrightarrow> heap_order mn y x"
  by (simp add: better_def heap_order_def split: if_splits)

lemma heap_order_refl: "heap_order mn x x"
  by (simp add: heap_order_def)

lemma heap_order_trans: "heap_order mn x y \<Longrightarrow> heap_order mn y z \<Longrightarrow> heap_order mn x z"
  by (simp add: heap_order_def split: if_splits)

lemma better_trans_order: "better mn x y \<Longrightarrow> heap_order mn y z \<Longrightarrow> heap_order mn x z"
  using better_order heap_order_trans by blast

lemma swap_list_length [simp]: "length (swap_list xs a b) = length xs"
  by (simp add: swap_list_def)

lemma swap_list_mset: "a < length xs \<Longrightarrow> b < length xs \<Longrightarrow> mset (swap_list xs a b) = mset xs"
  by (simp add: swap_list_def mset_swap)

lemma swap_list_nth:
  "a < length xs \<Longrightarrow> b < length xs \<Longrightarrow> m < length xs \<Longrightarrow>
   swap_list xs a b ! m = (if m = b then xs ! a else if m = a then xs ! b else xs ! m)"
  by (simp add: swap_list_def nth_list_update)

lemma select_child_self:
  "select_child mn xs i n = i \<Longrightarrow> covers mn xs n (xs ! i) i"
  by (auto simp: select_child_def covers_def Let_def not_better_order split: if_splits)

lemma select_child_other:
  assumes "select_child mn xs i n \<noteq> i"
  shows "(select_child mn xs i n = 2 * i + 1 \<or> select_child mn xs i n = 2 * i + 2)
       \<and> select_child mn xs i n < n
       \<and> better mn (xs ! select_child mn xs i n) (xs ! i)
       \<and> covers mn xs n (xs ! select_child mn xs i n) i"
proof -
  let ?l = "2 * i + 1" and ?r = "2 * i + 2"
  consider (L) "select_child mn xs i n = ?l" "?l < n" "better mn (xs ! ?l) (xs ! i)"
              "\<not> (?r < n \<and> better mn (xs ! ?r) (xs ! ?l))"
    | (R1) "select_child mn xs i n = ?r" "?r < n" "better mn (xs ! ?l) (xs ! i)"
              "better mn (xs ! ?r) (xs ! ?l)"
    | (R2) "select_child mn xs i n = ?r" "?r < n" "\<not> better mn (xs ! ?l) (xs ! i)"
              "better mn (xs ! ?r) (xs ! i)"
    using assms by (auto simp: select_child_def Let_def split: if_splits)
  then show ?thesis
  proof cases
    case L
    then show ?thesis
      by (auto simp: covers_def heap_order_refl not_better_order)
  next
    case R1
    have "better mn (xs ! ?r) (xs ! i)"
      using R1(3,4) by (auto simp: better_def split: if_splits)
    with R1 show ?thesis
      by (auto simp: covers_def heap_order_refl better_order)
  next
    case R2
    have "heap_order mn (xs ! ?r) (xs ! ?l)"
      using R2(3,4) better_trans_order not_better_order by blast
    with R2 show ?thesis
      by (auto simp: covers_def heap_order_refl)
  qed
qed

lemma down_pre_swap:
  assumes pre: "down_pre mn xs n k i"
    and ki: "k \<le> i"
    and c: "c = 2 * i + 1 \<or> c = 2 * i + 2" "c < n" "n \<le> length xs"
    and b: "better mn (xs ! c) (xs ! i)"
    and cov: "covers mn xs n (xs ! c) i"
  shows "down_pre mn (swap_list xs i c) n k c"
proof -
  let ?ys = "swap_list xs i c"
  have ilen: "i < length xs" "c < length xs" "i \<noteq> c" "i < n" using c by auto
  have yi: "?ys ! i = xs ! c" and yc: "?ys ! c = xs ! i"
    using ilen by (simp_all add: swap_list_nth)
  have yo: "?ys ! m = xs ! m" if "m < n" "m \<noteq> i" "m \<noteq> c" for m
    using that ilen c(3) by (simp add: swap_list_nth)
  have ic: "heap_order mn (xs ! c) (xs ! i)" using b by (rule better_order)
  have part1: "covers mn ?ys n (?ys ! m) m" if m: "k \<le> m" "m < n" "m \<noteq> c" for m
  proof (cases "m = i")
    case True
    show ?thesis
    proof (cases "c = 2 * i + 1")
      case True
      have "2 * i + 2 < n \<Longrightarrow> ?ys ! (2 * i + 2) = xs ! (2 * i + 2)"
        using True by (intro yo) auto
      then show ?thesis using cov ic True \<open>m = i\<close> yi yc
        by (simp add: covers_def)
    next
      case False
      then have c2: "c = 2 * i + 2" using c by simp
      have "?ys ! (2 * i + 1) = xs ! (2 * i + 1)"
        using c2 c(2) by (intro yo) auto
      then show ?thesis using cov ic c2 \<open>m = i\<close> yi yc
        by (simp add: covers_def)
    qed
  next
    case False
    have ym: "?ys ! m = xs ! m" using False m yo by simp
    have old: "covers mn xs n (xs ! m) m" using pre m False by (auto simp: down_pre_def)
    have nc: "2 * m + 1 \<noteq> c" "2 * m + 2 \<noteq> c" using c False by auto
    show ?thesis
    proof (cases "i = 2 * m + 1 \<or> i = 2 * m + 2")
      case True
      then have "covers mn xs n (xs ! m) i" using pre m by (auto simp: down_pre_def)
      then have mc: "heap_order mn (xs ! m) (xs ! c)" using c by (auto simp: covers_def)
      from True show ?thesis
      proof
        assume i1: "i = 2 * m + 1"
        have "2 * m + 2 < n \<Longrightarrow> ?ys ! (2 * m + 2) = xs ! (2 * m + 2)"
          using i1 nc by (intro yo) auto
        then show ?thesis using old mc yi i1 ym
          by (simp add: covers_def)
      next
        assume i2: "i = 2 * m + 2"
        have "?ys ! (2 * m + 1) = xs ! (2 * m + 1)"
          using i2 nc ilen by (intro yo) auto
        then show ?thesis using old mc yi i2 ym
          by (simp add: covers_def)
      qed
    next
      case False
      have "2 * m + 1 < n \<Longrightarrow> ?ys ! (2 * m + 1) = xs ! (2 * m + 1)"
        using False nc by (intro yo) auto
      moreover have "2 * m + 2 < n \<Longrightarrow> ?ys ! (2 * m + 2) = xs ! (2 * m + 2)"
        using False nc by (intro yo) auto
      ultimately show ?thesis using old ym
        by (simp add: covers_def)
    qed
  qed
  have part2: "covers mn ?ys n (?ys ! p) c" if p: "k \<le> p" "c = 2 * p + 1 \<or> c = 2 * p + 2" for p
  proof -
    have "p = i" using p c by auto
    have old: "covers mn xs n (xs ! c) c" using pre ki c ilen by (auto simp: down_pre_def)
    have "2 * c + 1 < n \<Longrightarrow> ?ys ! (2 * c + 1) = xs ! (2 * c + 1)"
      using c by (intro yo) auto
    moreover have "2 * c + 2 < n \<Longrightarrow> ?ys ! (2 * c + 2) = xs ! (2 * c + 2)"
      using c by (intro yo) auto
    ultimately show ?thesis using old \<open>p = i\<close> yi
      by (simp add: covers_def)
  qed
  show ?thesis unfolding down_pre_def using part1 part2 by blast
qed

lemma heap_invariant_iff:
  "heap_invariant h \<longleftrightarrow> heap_from (is_min_heap h) (arr h) (length (arr h)) 0"
  by (auto simp: heap_invariant_def heap_from_def covers_def)

lemma down_pre_done:
  "down_pre mn xs n k j \<Longrightarrow> covers mn xs n (xs ! j) j \<Longrightarrow> heap_from mn xs n k"
  unfolding down_pre_def heap_from_def by metis

lemma heapify_down_heap:
  assumes "n \<le> length (arr h)" "k \<le> i" "down_pre (is_min_heap h) (arr h) n k i"
  shows "\<exists>ys. heapify_down (int i) (int n) h = (Inr (), h\<lparr>arr := ys\<rparr>)
             \<and> length ys = length (arr h) \<and> mset ys = mset (arr h)
             \<and> heap_from (is_min_heap h) ys n k"
  using assms
proof (induction "n - i" arbitrary: i h rule: less_induct)
  case less
  let ?mn = "is_min_heap h" and ?xs = "arr h"
  let ?c = "select_child ?mn ?xs i n"
  note step = heapify_down_step[OF less.prems(1), of i]
  show ?case
  proof (cases "?c = i")
    case True
    then have "heapify_down (int i) (int n) h = (Inr (), h\<lparr>arr := ?xs\<rparr>)"
      using step by simp
    moreover have "heap_from ?mn ?xs n k"
      using down_pre_done[OF less.prems(3)] select_child_self[OF True] by simp
    ultimately show ?thesis by blast
  next
    case False
    note sel = select_child_other[OF False]
    let ?h' = "h\<lparr>arr := swap_list ?xs i ?c\<rparr>"
    have len: "i < length ?xs" "?c < length ?xs" using sel less.prems(1) by auto
    have pre': "down_pre (is_min_heap ?h') (arr ?h') n k ?c"
      using down_pre_swap[OF less.prems(3) less.prems(2) _ _ less.prems(1), of ?c] sel by simp
    have "n - ?c < n - i" "k \<le> ?c" "n \<le> length (arr ?h')"
      using sel less.prems by auto
    from less.hyps[OF this(1) this(3) this(2) pre']
    obtain ys where ys: "heapify_down (int ?c) (int n) ?h' = (Inr (), ?h'\<lparr>arr := ys\<rparr>)"
      "length ys = length (arr ?h')" "mset ys = mset (arr ?h')"
      "heap_from (is_min_heap ?h') ys n k" by blast
    have "heapify_down (int i) (int n) h = (Inr (), h\<lparr>arr := ys\<rparr>)"
      using step False ys(1) by simp
    moreover have "mset ys = mset ?xs" using ys(3) swap_list_mset[OF len] by simp
    ultimately show ?thesis using ys(2,4) by auto
  qed
qed

lemma heapify_up_zero: "heapify_up 0 h = (Inr (), h)"
  by (subst heapify_up.simps) simp

lemma heapify_up_step:
  assumes "0 < i" "i < length (arr h)"
  shows "heapify_up (int i) h =
     (if better (is_min_heap h) (arr h ! i) (arr h ! ((i - 1) div 2))
      then heapify_up (int ((i - 1) div 2)) (h\<lparr>arr := swap_list (arr h) i ((i - 1) div 2)\<rparr>)
      else (Inr (), h))"
proof -
  define p where "p = (i - 1) div 2"
  have p: "heap_parent (int i) = int p" "p < length (arr h)"
    using assms by (simp_all add: p_def heap_parent_int)
  have "heapify_up (int i) h =
     (if better (is_min_heap h) (arr h ! i) (arr h ! p)
      then heapify_up (int p) (h\<lparr>arr := swap_list (arr h) i p\<rparr>)
      else (Inr (), h))"
    using assms p(2)
    by (subst heapify_up.simps) (simp add: p(1) heap_compare_int heap_swap_int Let_def)
  then show ?thesis unfolding p_def .
qed

lemma up_pre_done:
  assumes "up_pre mn xs n j"
    and "j = 0 \<or> n \<le> j \<or> \<not> better mn (xs ! j) (xs ! ((j - 1) div 2))"
  shows "heap_from mn xs n 0"
proof -
  have "heap_order mn (xs ! i) (xs ! c)" if "c = 2 * i + 1 \<or> c = 2 * i + 2" "c < n" for i c
  proof (cases "c = j")
    case False
    then show ?thesis using assms(1) that unfolding up_pre_def by blast
  next
    case True
    then have "(j - 1) div 2 = i" "j \<noteq> 0" "\<not> n \<le> j" using that by auto
    then show ?thesis using assms(2) True not_better_order by auto
  qed
  then show ?thesis by (auto simp: heap_from_def covers_def)
qed

lemma up_pre_swap:
  assumes pre: "up_pre mn xs n j"
    and j: "0 < j" "j < n" "n \<le> length xs"
    and b: "better mn (xs ! j) (xs ! ((j - 1) div 2))"
  shows "up_pre mn (swap_list xs j ((j - 1) div 2)) n ((j - 1) div 2)"
proof -
  define p where "p = (j - 1) div 2"
  let ?ys = "swap_list xs j p"
  have pj: "j = 2 * p + 1 \<or> j = 2 * p + 2" "p < j" using j by (auto simp: p_def)
  have len: "j < length xs" "p < length xs" "p < n" using j pj by auto
  have yj: "?ys ! j = xs ! p" and yp: "?ys ! p = xs ! j"
    using len pj by (simp_all add: swap_list_nth)
  have yo: "?ys ! m = xs ! m" if "m < n" "m \<noteq> j" "m \<noteq> p" for m
    using that len j(3) by (simp add: swap_list_nth)
  have edge: "heap_order mn (xs ! i) (xs ! c)"
    if "c = 2 * i + 1 \<or> c = 2 * i + 2" "c < n" "c \<noteq> j" for i c
    using pre that unfolding up_pre_def by blast
  have cov: "heap_order mn (xs ! p) (xs ! c)" if "c = 2 * j + 1 \<or> c = 2 * j + 2" "c < n" for c
    using pre pj that unfolding up_pre_def covers_def by blast
  have jp: "heap_order mn (xs ! j) (xs ! p)" using b unfolding p_def by (rule better_order)
  have part1: "heap_order mn (?ys ! i) (?ys ! c)"
    if c: "c = 2 * i + 1 \<or> c = 2 * i + 2" "c < n" "c \<noteq> p" for i c
  proof -
    consider (P) "i = p" "c = j" | (S) "i = p" "c \<noteq> j" | (J) "i = j" | (O) "i \<noteq> p" "i \<noteq> j"
      by blast
    then show ?thesis
    proof cases
      case P
      then show ?thesis using yj yp jp by simp
    next
      case S
      have "heap_order mn (xs ! p) (xs ! c)" using edge[of c p] c S by simp
      then have "heap_order mn (xs ! j) (xs ! c)" using jp heap_order_trans by blast
      moreover have "?ys ! c = xs ! c" using c S by (intro yo) auto
      ultimately show ?thesis using S yp by simp
    next
      case J
      have "?ys ! c = xs ! c" using c J pj by (intro yo) auto
      then show ?thesis using cov[of c] c J yj by simp
    next
      case O
      have "c \<noteq> j" using O c pj by auto
      have "i < n" using c by auto
      then have "?ys ! i = xs ! i" "?ys ! c = xs ! c"
        using O c \<open>c \<noteq> j\<close> by (auto intro!: yo)
      then show ?thesis using edge[of c i] c \<open>c \<noteq> j\<close> by simp
    qed
  qed
  have part2: "covers mn ?ys n (?ys ! q) p" if q: "p = 2 * q + 1 \<or> p = 2 * q + 2" for q
  proof -
    have qq: "q < n" "q \<noteq> j" "q \<noteq> p" using q pj len by auto
    have yq: "?ys ! q = xs ! q" using qq by (intro yo)
    have qp: "heap_order mn (xs ! q) (xs ! p)" using edge[of p q] q len pj by simp
    have "heap_order mn (xs ! q) (?ys ! c)" if c: "c = 2 * p + 1 \<or> c = 2 * p + 2" "c < n" for c
    proof (cases "c = j")
      case True
      then show ?thesis using yj qp by simp
    next
      case False
      have "?ys ! c = xs ! c" using c False by (intro yo) auto
      moreover have "heap_order mn (xs ! p) (xs ! c)" using edge[of c p] c False by simp
      ultimately show ?thesis using qp heap_order_trans by metis
    qed
    then show ?thesis using yq by (simp add: covers_def)
  qed
  show ?thesis unfolding up_pre_def p_def[symmetric] using part1 part2 by blast
qed

lemma heapify_up_heap:
  assumes "i < length (arr h)" "up_pre (is_min_heap h) (arr h) (length (arr h)) i"
  shows "\<exists>ys. heapify_up (int i) h = (Inr (), h\<lparr>arr := ys\<rparr>)
             \<and> length ys = length (arr h) \<and> mset ys = mset (arr h)
             \<and> heap_from (is_min_heap h) ys (length ys) 0"
  using assms
proof (induction i arbitrary: h rule: less_induct)
  case (less i)
  let ?mn = "is_min_heap h" and ?xs = "arr h"
  let ?p = "(i - 1) div 2"
  show ?case
  proof (cases "0 < i \<and> better ?mn (?xs ! i) (?xs ! ?p)")
    case False
    then have "heapify_up (int i) h = (Inr (), h\<lparr>arr := ?xs\<rparr>)"
      using heapify_up_zero[of h] heapify_up_step[OF _ less.prems(1)] by (cases "i = 0") auto
    moreover have "heap_from ?mn ?xs (length ?xs) 0"
      using up_pre_done[OF less.prems(2)] False by auto
    ultimately show ?thesis by blast
  next
    case True
    let ?h' = "h\<lparr>arr := swap_list ?xs i ?p\<rparr>"
    have p: "?p < i" "?p < length (arr ?h')" using True less.prems(1) by auto
    have pre': "up_pre (is_min_heap ?h') (arr ?h') (length (arr ?h')) ?p"
      using up_pre_swap[OF less.prems(2) _ less.prems(1)] True by simp
    from less.IH[OF p pre']
    obtain ys where ys: "heapify_up (int ?p) ?h' = (Inr (), ?h'\<lparr>arr := ys\<rparr>)"
      "length ys = length (arr ?h')" "mset ys = mset (arr ?h')"
      "heap_from (is_min_heap ?h') ys (length ys) 0" by blast
    have "heapify_up (int i) h = (Inr (), h\<lparr>arr := ys\<rparr>)"
      using heapify_up_step[OF _ less.prems(1)] True ys(1) by simp
    moreover have "mset ys = mset ?xs"
      using ys(3) swap_list_mset[of i ?xs ?p] less.prems(1) p by simp
    ultimately show ?thesis using ys(2,4) by auto
  qed
qed

lemma upto_int_upt: "[0..int m - 1] = map int [0..<m]"
proof (induction m)
  case 0
  then show ?case by simp
next
  case (Suc m)
  have "[0..int (Suc m) - 1] = [0..int m - 1] @ [int m]"
    using upto_rec2[of 0 "int m"] by simp
  then show ?case using Suc by simp
qed

lemma range_down_int: "range_down (int n div 2 - 1) = map int (rev [0..<n div 2])"
proof -
  have "int n div 2 = int (n div 2)" by (simp add: zdiv_int)
  then show ?thesis by (simp add: range_down_def upto_int_upt rev_map)
qed

lemma heap_from_leaves: "heap_from mn xs n (n div 2)"
  by (auto simp: heap_from_def covers_def)

lemma heap_from_down_pre: "heap_from mn xs n (Suc m) \<Longrightarrow> down_pre mn xs n m m"
  by (auto simp: heap_from_def down_pre_def)

lemma build_heap_loop_heap:
  assumes "heap_from (is_min_heap h) (arr h) (length (arr h)) m"
  shows "\<exists>ys. build_heap_loop (map int (rev [0..<m])) h = (Inr (), h\<lparr>arr := ys\<rparr>)
             \<and> length ys = length (arr h) \<and> mset ys = mset (arr h)
             \<and> heap_from (is_min_heap h) ys (length ys) 0"
  using assms
proof (induction m arbitrary: h)
  case 0
  have "build_heap_loop (map int (rev [0..<0])) h = (Inr (), h\<lparr>arr := arr h\<rparr>)" by simp
  then show ?case using 0 by blast
next
  case (Suc m)
  let ?n = "length (arr h)"
  from heapify_down_heap[OF le_refl le_refl heap_from_down_pre[OF Suc.prems]]
  obtain ys where ys: "heapify_down (int m) (int ?n) h = (Inr (), h\<lparr>arr := ys\<rparr>)"
    "length ys = ?n" "mset ys = mset (arr h)" "heap_from (is_min_heap h) ys ?n m"
    by blast
  let ?h' = "h\<lparr>arr := ys\<rparr>"
  have "heap_from (is_min_heap ?h') (arr ?h') (length (arr ?h')) m" using ys by simp
  from Suc.IH[OF this]
  obtain zs where zs: "build_heap_loop (map int (rev [0..<m])) ?h' = (Inr (), ?h'\<lparr>arr := zs\<rparr>)"
    "length zs = length (arr ?h')" "mset zs = mset (arr ?h')"
    "heap_from (is_min_heap ?h') zs (length zs) 0" by blast
  have "build_heap_loop (map int (rev [0..<Suc m])) h = (Inr (), h\<lparr>arr := zs\<rparr>)"
    using ys(1) zs(1) by (simp add: heap_size_def)
  then show ?case using zs ys by auto
qed

lemma build_heap_heap:
  "\<exists>ys. build_heap h = (Inr (), h\<lparr>arr := ys\<rparr>)
        \<and> length ys = length (arr h) \<and> mset ys = mset (arr h)
        \<and> heap_invariant (h\<lparr>arr := ys\<rparr>)"
proof -
  have "build_heap h = build_heap_loop (map int (rev [0..<length (arr h) div 2])) h"
    by (simp add: build_heap_def heap_size_def range_down_int)
  then show ?thesis
    using build_heap_loop_heap[OF heap_from_leaves, of h]
    by (auto simp: heap_invariant_iff)
qed

lemma up_pre_append:
  assumes "heap_from mn xs (length xs) 0"
  shows "up_pre mn (xs @ [v]) (Suc (length xs)) (length xs)"
proof -
  have "heap_order mn ((xs @ [v]) ! i) ((xs @ [v]) ! c)"
    if "c = 2 * i + 1 \<or> c = 2 * i + 2" "c < Suc (length xs)" "c \<noteq> length xs" for i c
  proof -
    have "c < length xs" "i < length xs" using that by auto
    moreover have "heap_order mn (xs ! i) (xs ! c)"
      using assms that \<open>c < length xs\<close> by (auto simp: heap_from_def covers_def)
    ultimately show ?thesis by (simp add: nth_append)
  qed
  then show ?thesis unfolding up_pre_def covers_def by auto
qed

lemma push_heap:
  assumes "heap_invariant h"
  shows "\<exists>ys. push v h = (Inr (), h\<lparr>arr := ys\<rparr>)
             \<and> length ys = Suc (length (arr h)) \<and> mset ys = mset (arr h) + {#v#}
             \<and> heap_invariant (h\<lparr>arr := ys\<rparr>)"
proof -
  let ?h1 = "h\<lparr>arr := arr h @ [v]\<rparr>"
  have pre: "up_pre (is_min_heap ?h1) (arr ?h1) (length (arr ?h1)) (length (arr h))"
    using up_pre_append[of "is_min_heap h" "arr h" v] assms by (simp add: heap_invariant_iff)
  have "length (arr h) < length (arr ?h1)" by simp
  from heapify_up_heap[OF this pre]
  obtain ys where ys: "heapify_up (int (length (arr h))) ?h1 = (Inr (), ?h1\<lparr>arr := ys\<rparr>)"
    "length ys = length (arr ?h1)" "mset ys = mset (arr ?h1)"
    "heap_from (is_min_heap ?h1) ys (length ys) 0" by blast
  have "push v h = (Inr (), h\<lparr>arr := ys\<rparr>)"
    using ys(1) by (simp add: push_def Let_def)
  then show ?thesis using ys by (auto simp: heap_invariant_iff)
qed

lemma mset_butlast: "xs \<noteq> [] \<Longrightarrow> mset (butlast xs) = mset xs - {#last xs#}"
  by (induction xs) auto

lemma pop_heap:
  assumes inv: "heap_invariant h" and ne: "arr h \<noteq> []"
  shows "\<exists>ys. pop h = (Inr (arr h ! 0), h\<lparr>arr := ys\<rparr>)
             \<and> Suc (length ys) = length (arr h) \<and> mset ys = mset (arr h) - {#arr h ! 0#}
             \<and> heap_invariant (h\<lparr>arr := ys\<rparr>)"
proof -
  let ?xs = "arr h" and ?mn = "is_min_heap h"
  define n where "n = length ?xs"
  define l where "l = n - 1"
  have n0: "0 < n" using ne by (simp add: n_def)
  then have n: "l < n" "int n - 1 = int l" "Suc l = n" by (simp_all add: l_def of_nat_diff)
  define sw where "sw = swap_list ?xs 0 l"
  define zs where "zs = butlast sw"
  have sw: "length sw = n" "sw \<noteq> []" "mset sw = mset ?xs"
    using n0 n(1) swap_list_mset[of 0 ?xs l] by (auto simp: n_def sw_def)
  have "last sw = sw ! l" using sw n(3) by (simp add: last_conv_nth l_def)
  also have "\<dots> = ?xs ! 0" using n0 n(1) by (simp add: swap_list_nth n_def sw_def)
  finally have last: "last sw = ?xs ! 0" .
  have zs: "length zs = l" "mset zs = mset ?xs - {#?xs ! 0#}"
    using sw last mset_butlast[OF sw(2)] by (simp_all add: l_def zs_def)
  have znth: "zs ! i = ?xs ! i" if "0 < i" "i < l" for i
    using that n0 n(1) zs(1) by (simp add: nth_butlast swap_list_nth n_def sw_def zs_def)
  have pre: "down_pre ?mn zs l 0 0"
  proof -
    have "covers ?mn zs l (zs ! i) i" if "i < l" "i \<noteq> 0" for i
    proof -
      have "covers ?mn ?xs n (?xs ! i) i"
        using inv that n(1) by (auto simp: heap_invariant_iff heap_from_def n_def)
      then show ?thesis using that znth n(1) by (auto simp: covers_def)
    qed
    then show ?thesis by (auto simp: down_pre_def)
  qed
  have swap: "heap_swap 0 (heap_size h - 1) h = (Inr (), h\<lparr>arr := sw\<rparr>)"
    using heap_swap_int[of 0 h l] n0 n(1,2) by (simp add: heap_size_def n_def sw_def)
  have get0: "getitem ?xs 0 = Inr (?xs ! 0)"
    using getitem_int[of 0 ?xs] n0 by (simp add: n_def)
  have popeq: "pop h =
     (if zs \<noteq> [] then
        (case heapify_down 0 (int (length zs)) (h\<lparr>arr := zs\<rparr>) of
           (Inl e, h3) \<Rightarrow> (Inl e, h3)
         | (Inr u, h3) \<Rightarrow> (Inr (?xs ! 0), h3))
      else (Inr (?xs ! 0), h\<lparr>arr := zs\<rparr>))"
    using ne get0 swap sw(2)
    by (simp add: pop_def is_empty_def list_pop_def Let_def heap_size_def flip: zs_def)
  have len: "Suc (length zs) = length ?xs" using zs(1) n(3) by (simp add: n_def)
  show ?thesis
  proof (cases "zs = []")
    case True
    then have "pop h = (Inr (?xs ! 0), h\<lparr>arr := zs\<rparr>)" using popeq by simp
    moreover have "heap_invariant (h\<lparr>arr := zs\<rparr>)" using True by (simp add: heap_invariant_def)
    ultimately show ?thesis using zs(2) len by blast
  next
    case False
    have "l \<le> length (arr (h\<lparr>arr := zs\<rparr>))" using zs by simp
    from heapify_down_heap[OF this le_refl, of 0] pre
    obtain ys where ys: "heapify_down 0 (int l) (h\<lparr>arr := zs\<rparr>) = (Inr (), h\<lparr>arr := ys\<rparr>)"
      "length ys = length zs" "mset ys = mset zs"
      "heap_from ?mn ys l 0" by auto
    have "pop h = (Inr (?xs ! 0), h\<lparr>arr := ys\<rparr>)"
      using popeq False ys(1) zs(1) by simp
    moreover have "heap_invariant (h\<lparr>arr := ys\<rparr>)"
      using ys zs(1) by (simp add: heap_invariant_iff)
    moreover have "Suc (length ys) = length ?xs" "mset ys = mset ?xs - {#?xs ! 0#}"
      using ys(2,3) len zs(2) by simp_all
    ultimately show ?thesis by blast
  qed
qed

lemma list_index_None: "list_index xs v = None \<longleftrightarrow> v \<notin> set xs"
  by (induction xs) auto

lemma list_index_Some:
  "list_index xs v = Some k \<Longrightarrow> k < length xs \<and> xs ! k = v \<and> (\<forall>j<k. xs ! j \<noteq> v)"
proof (induction xs arbitrary: k)
  case Nil
  then show ?case by simp
next
  case (Cons x xs)
  show ?case
  proof (cases "x = v")
    case True
    then show ?thesis using Cons.prems by simp
  next
    case False
    then obtain k' where k': "list_index xs v = Some k'" "k = Suc k'"
      using Cons.prems by auto
    from Cons.IH[OF k'(1)] have IH: "k' < length xs" "xs ! k' = v" "\<forall>j<k'. xs ! j \<noteq> v"
      by auto
    have "(x # xs) ! j \<noteq> v" if "j < k" for j
      using that False IH(3) k'(2) by (cases j) auto
    then show ?thesis using IH k'(2) by auto
  qed
qed

lemma heap_root_dominates:
  assumes "heap_from mn xs n 0" "i < n"
  shows "heap_order mn (xs ! 0) (xs ! i)"
  using assms(2)
proof (induction i rule: less_induct)
  case (less i)
  show ?case
  proof (cases "i = 0")
    case True
    then show ?thesis by (simp add: heap_order_refl)
  next
    case False
    define p where "p = (i - 1) div 2"
    have p: "p < i" "i = 2 * p + 1 \<or> i = 2 * p + 2" using False by (auto simp: p_def)
    have "heap_order mn (xs ! 0) (xs ! p)" using less.IH[OF p(1)] p(1) less.prems by simp
    moreover have "heap_order mn (xs ! p) (xs ! i)"
      using assms(1) p less.prems by (auto simp: heap_from_def covers_def)
    ultimately show ?thesis by (rule heap_order_trans)
  qed
qed

lemma update_down_pre:
  assumes hf: "heap_from mn xs n 0" and k: "k < n" "n \<le> length xs"
    and par: "k = 0 \<or> heap_order mn (xs ! ((k - 1) div 2)) v"
  shows "down_pre mn (xs[k := v]) n 0 k"
proof -
  let ?ys = "xs[k := v]"
  have edge: "heap_order mn (xs ! i) (xs ! c)" if "c = 2 * i + 1 \<or> c = 2 * i + 2" "c < n" for i c
    using hf that by (auto simp: heap_from_def covers_def)
  have part1: "covers mn ?ys n (?ys ! i) i" if i: "i < n" "i \<noteq> k" for i
  proof -
    have "heap_order mn (xs ! i) (?ys ! c)" if c: "c = 2 * i + 1 \<or> c = 2 * i + 2" "c < n" for c
    proof (cases "c = k")
      case True
      then have "(k - 1) div 2 = i" "k \<noteq> 0" using c by auto
      then show ?thesis using par True k by simp
    next
      case False
      then show ?thesis using edge[OF c] by simp
    qed
    then show ?thesis using i by (simp add: covers_def)
  qed
  have part2: "covers mn ?ys n (?ys ! p) k" if p: "k = 2 * p + 1 \<or> k = 2 * p + 2" for p
  proof -
    have pk: "heap_order mn (xs ! p) (xs ! k)" using edge[of k p] p k by simp
    have "heap_order mn (xs ! p) (xs ! c)" if c: "c = 2 * k + 1 \<or> c = 2 * k + 2" "c < n" for c
      using pk edge[OF c] heap_order_trans by blast
    moreover have "p \<noteq> k" using p by auto
    ultimately show ?thesis using p by (auto simp: covers_def)
  qed
  show ?thesis unfolding down_pre_def using part1 part2 by auto
qed

lemma update_up_pre:
  assumes hf: "heap_from mn xs n 0" and k: "0 < k" "k < n" "n \<le> length xs"
    and par: "better mn v (xs ! ((k - 1) div 2))"
  shows "up_pre mn (xs[k := v]) n k"
proof -
  let ?ys = "xs[k := v]"
  define q where "q = (k - 1) div 2"
  have q: "k = 2 * q + 1 \<or> k = 2 * q + 2" "q < k" using k by (auto simp: q_def)
  have edge: "heap_order mn (xs ! i) (xs ! c)" if "c = 2 * i + 1 \<or> c = 2 * i + 2" "c < n" for i c
    using hf that by (auto simp: heap_from_def covers_def)
  have vk: "heap_order mn v (xs ! k)"
    using par edge[of k q] q k better_trans_order unfolding q_def by blast
  have part1: "heap_order mn (?ys ! i) (?ys ! c)"
    if c: "c = 2 * i + 1 \<or> c = 2 * i + 2" "c < n" "c \<noteq> k" for i c
  proof (cases "i = k")
    case True
    have "heap_order mn (xs ! k) (xs ! c)" using edge[of c k] c True by simp
    then have "heap_order mn v (xs ! c)" using vk heap_order_trans by blast
    then show ?thesis using True c k by simp
  next
    case False
    then show ?thesis using edge[of c i] c by simp
  qed
  have part2: "covers mn ?ys n (?ys ! p) k" if p: "k = 2 * p + 1 \<or> k = 2 * p + 2" for p
  proof -
    have pk: "heap_order mn (xs ! p) (xs ! k)" using edge[of k p] p k by simp
    have "heap_order mn (xs ! p) (xs ! c)" if c: "c = 2 * k + 1 \<or> c = 2 * k + 2" "c < n" for c
      using pk edge[OF c] heap_order_trans by blast
    moreover have "p \<noteq> k" using p by auto
    ultimately show ?thesis using p by (auto simp: covers_def)
  qed
  show ?thesis unfolding up_pre_def using part1 part2 by blast
qed

lemma replace_heap:
  assumes inv: "heap_invariant h" and mem: "oldValue \<in> set (arr h)"
  shows "\<exists>k ys. list_index (arr h) oldValue = Some k
             \<and> replace oldValue newValue h = (Inr (), h\<lparr>arr := ys\<rparr>)
             \<and> length ys = length (arr h)
             \<and> mset ys = mset ((arr h)[k := newValue])
             \<and> heap_invariant (h\<lparr>arr := ys\<rparr>)"
proof -
  let ?xs = "arr h" and ?mn = "is_min_heap h"
  obtain k where k: "list_index ?xs oldValue = Some k"
    using mem list_index_None[of ?xs oldValue] by (cases "list_index ?xs oldValue") auto
  have kl: "k < length ?xs" using list_index_Some[OF k] by simp
  then have ne: "?xs \<noteq> []" by auto
  define zs where "zs = ?xs[k := newValue]"
  define p where "p = (k - 1) div 2"
  let ?h1 = "h\<lparr>arr := zs\<rparr>"
  have lz: "length zs = length ?xs" by (simp add: zs_def)
  have hf: "heap_from ?mn ?xs (length ?xs) 0" using inv by (simp add: heap_invariant_iff)
  have zk: "zs ! k = newValue" using kl by (simp add: zs_def)
  have set: "setitem ?xs (int k) newValue = Inr zs" using kl by (simp add: setitem_int zs_def)
  have cmp: "heap_compare (int k) (heap_parent (int k)) ?h1 = Inr (better ?mn newValue (?xs ! p))"
    if "0 < k"
  proof -
    have "p < k" using that by (auto simp: p_def)
    then have "zs ! p = ?xs ! p" "p < length zs" using kl by (simp_all add: zs_def)
    then show ?thesis
      using heap_compare_int[of k ?h1 p] kl lz zk that by (simp add: heap_parent_int p_def)
  qed
  have rep: "replace oldValue newValue h =
     (if 0 < k \<and> better ?mn newValue (?xs ! p) then heapify_up (int k) ?h1
      else heapify_down (int k) (int (length zs)) ?h1)"
    using ne k set cmp
    by (cases "0 < k") (simp_all add: replace_def is_empty_def Let_def heap_size_def)
  show ?thesis
  proof (cases "0 < k \<and> better ?mn newValue (?xs ! p)")
    case True
    have "up_pre ?mn zs (length ?xs) k"
      unfolding zs_def using update_up_pre[OF hf _ kl le_refl] True by (simp add: p_def)
    then have pre: "up_pre (is_min_heap ?h1) (arr ?h1) (length (arr ?h1)) k" using lz by simp
    have "k < length (arr ?h1)" using kl lz by simp
    from heapify_up_heap[OF this pre]
    obtain ys where ys: "heapify_up (int k) ?h1 = (Inr (), h\<lparr>arr := ys\<rparr>)"
      "length ys = length zs" "mset ys = mset zs" "heap_from ?mn ys (length ys) 0" by auto
    have "replace oldValue newValue h = (Inr (), h\<lparr>arr := ys\<rparr>)" using rep True ys(1) by simp
    moreover have "heap_invariant (h\<lparr>arr := ys\<rparr>)" using ys(4) by (simp add: heap_invariant_iff)
    ultimately show ?thesis using k ys(2,3) lz unfolding zs_def by auto
  next
    case False
    then have "k = 0 \<or> heap_order ?mn (?xs ! ((k - 1) div 2)) newValue"
      using not_better_order by (auto simp: p_def)
    then have "down_pre ?mn zs (length ?xs) 0 k"
      unfolding zs_def using update_down_pre[OF hf kl le_refl] by simp
    then have pre: "down_pre (is_min_heap ?h1) (arr ?h1) (length zs) 0 k" using lz by simp
    have "length zs \<le> length (arr ?h1)" by simp
    from heapify_down_heap[OF this _ pre]
    obtain ys where ys: "heapify_down (int k) (int (length zs)) ?h1 = (Inr (), h\<lparr>arr := ys\<rparr>)"
      "length ys = length zs" "mset ys = mset zs" "heap_from ?mn ys (length zs) 0" by auto
    have "replace oldValue newValue h = (Inr (), h\<lparr>arr := ys\<rparr>)" using rep False ys(1) by simp
    moreover have "heap_invariant (h\<lparr>arr := ys\<rparr>)" using ys(2,4) by (simp add: heap_invariant_iff)
    ultimately show ?thesis using k ys(2,3) lz unfolding zs_def by auto
  qed
qed

lemma push_pop_nonempty:
  assumes inv: "heap_invariant h" and ne: "arr h \<noteq> []"
  shows "if (is_min_heap h \<and> v > arr h ! 0) \<or> \<not> (is_min_heap h \<and> v < arr h ! 0)
         then \<exists>ys. push_pop v h = (Inr (arr h ! 0), h\<lparr>arr := ys\<rparr>)
                  \<and> length ys = length (arr h)
                  \<and> mset ys = mset ((arr h)[0 := v])
                  \<and> heap_invariant (h\<lparr>arr := ys\<rparr>)
         else push_pop v h = (Inr v, h)"
proof -
  let ?xs = "arr h" and ?mn = "is_min_heap h"
  have l0: "0 < length ?xs" using ne by simp
  define zs where "zs = ?xs[0 := v]"
  let ?h1 = "h\<lparr>arr := zs\<rparr>"
  have lz: "length zs = length ?xs" by (simp add: zs_def)
  have get0: "getitem ?xs 0 = Inr (?xs ! 0)" using getitem_int[OF l0] by simp
  have set0: "setitem ?xs 0 v = Inr zs" using setitem_int[OF l0] by (simp add: zs_def)
  have hf: "heap_from ?mn ?xs (length ?xs) 0" using inv by (simp add: heap_invariant_iff)
  have "down_pre ?mn zs (length ?xs) 0 0"
    unfolding zs_def using update_down_pre[OF hf l0 le_refl] by simp
  then have pre: "down_pre (is_min_heap ?h1) (arr ?h1) (length zs) 0 0" using lz by simp
  have "length zs \<le> length (arr ?h1)" by simp
  from heapify_down_heap[OF this _ pre]
  obtain ys where ys: "heapify_down 0 (int (length zs)) ?h1 = (Inr (), h\<lparr>arr := ys\<rparr>)"
    "length ys = length zs" "mset ys = mset zs" "heap_from ?mn ys (length zs) 0" by auto
  have inv': "heap_invariant (h\<lparr>arr := ys\<rparr>)" using ys(2,4) by (simp add: heap_invariant_iff)
  show ?thesis
  proof (cases "(?mn \<and> v > ?xs ! 0) \<or> \<not> (?mn \<and> v < ?xs ! 0)")
    case True
    then have "push_pop v h = (Inr (?xs ! 0), h\<lparr>arr := ys\<rparr>)"
      using ne get0 set0 ys(1)
      by (simp add: push_pop_def is_empty_def Let_def heap_size_def)
    then show ?thesis using True inv' ys(2,3) lz unfolding zs_def by auto
  next
    case False
    then have "push_pop v h = (Inr v, h)"
      using ne get0 by (auto simp add: push_pop_def is_empty_def)
    then show ?thesis using False by auto
  qed
qed

lemma push_pop_empty:
  assumes "arr h = []"
  shows "push_pop v h = (Inr v, h\<lparr>arr := [v]\<rparr>)"
proof -
  have "push v h = (Inr (), h\<lparr>arr := [v]\<rparr>)"
    using assms heapify_up_zero by (simp add: push_def Let_def)
  then show ?thesis using assms by (simp add: push_pop_def is_empty_def)
qed

lemma heap_invariant_short: "length (arr h) \<le> 1 \<Longrightarrow> heap_invariant h"
  by (auto simp: heap_invariant_def)

lemma pop_all_sorted:
  assumes "heap_invariant h"
  shows "\<exists>out. pop_all h = (Inr out, h\<lparr>arr := []\<rparr>)
             \<and> mset out = mset (arr h)
             \<and> sorted_wrt (heap_order (is_min_heap h)) out"
  using assms
proof (induction "length (arr h)" arbitrary: h)
  case 0
  then have "arr h = []" by simp
  then have "pop_all h = (Inr [], h\<lparr>arr := []\<rparr>)"
    by (subst pop_all.simps) (simp add: is_empty_def)
  then show ?case using \<open>arr h = []\<close> by simp
next
  case (Suc n)
  let ?xs = "arr h" and ?mn = "is_min_heap h"
  have ne: "?xs \<noteq> []" using Suc.hyps(2) by auto
  from pop_heap[OF Suc.prems ne]
  obtain ys where ys: "pop h = (Inr (?xs ! 0), h\<lparr>arr := ys\<rparr>)"
    "Suc (length ys) = length ?xs" "mset ys = mset ?xs - {#?xs ! 0#}"
    "heap_invariant (h\<lparr>arr := ys\<rparr>)" by blast
  let ?h1 = "h\<lparr>arr := ys\<rparr>"
  have "n = length (arr ?h1)" using ys(2) Suc.hyps(2) by simp
  from Suc.hyps(1)[OF this ys(4)]
  obtain out where out: "pop_all ?h1 = (Inr out, h\<lparr>arr := []\<rparr>)"
    "mset out = mset ys" "sorted_wrt (heap_order ?mn) out" by auto
  have "pop_all h = (Inr (?xs ! 0 # out), h\<lparr>arr := []\<rparr>)"
    using ne ys(1) out(1) by (subst pop_all.simps) (simp add: is_empty_def)
  moreover have "mset (?xs ! 0 # out) = mset ?xs"
    using out(2) ys(3) ne by (simp add: nth_mem)
  moreover have "heap_order ?mn (?xs ! 0) y" if "y \<in> set out" for y
  proof -
    have "y \<in># mset ys" using that out(2) by (metis set_mset_mset)
    then have "y \<in> set ?xs" using ys(3) by (metis in_diffD set_mset_mset)
    then obtain i where "i < length ?xs" "?xs ! i = y" by (auto simp: in_set_conv_nth)
    then show ?thesis
      using heap_root_dominates[of ?mn ?xs "length ?xs" i] Suc.prems
      by (simp add: heap_invariant_iff)
  qed
  ultimately show ?case using out(3) by auto
qed

lemma heapify_down_returns:
  assumes "n \<le> length (arr h)"
  shows "\<exists>ys. heapify_down (int i) (int n) h = (Inr (), h\<lparr>arr := ys\<rparr>)
             \<and> length ys = length (arr h) \<and> mset ys = mset (arr h)"
  using assms
proof (induction "n - i" arbitrary: i h rule: less_induct)
  case less
  let ?c = "select_child (is_min_heap h) (arr h) i n"
  note step = heapify_down_step[OF less.prems, of i]
  show ?case
  proof (cases "?c = i")
    case True
    then have "heapify_down (int i) (int n) h = (Inr (), h\<lparr>arr := arr h\<rparr>)"
      using step by simp
    then show ?thesis by blast
  next
    case False
    note sel = select_child_other[OF False]
    let ?h' = "h\<lparr>arr := swap_list (arr h) i ?c\<rparr>"
    have len: "i < length (arr h)" "?c < length (arr h)" using sel less.prems by auto
    have "n - ?c < n - i" "n \<le> length (arr ?h')" using sel less.prems by auto
    from less.hyps[OF this]
    obtain ys where ys: "heapify_down (int ?c) (int n) ?h' = (Inr (), ?h'\<lparr>arr := ys\<rparr>)"
      "length ys = length (arr ?h')" "mset ys = mset (arr ?h')" by blast
    have "heapify_down (int i) (int n) h = (Inr (), h\<lparr>arr := ys\<rparr>)"
      using step False ys(1) by simp
    moreover have "mset ys = mset (arr h)" using ys(3) swap_list_mset[OF len] by simp
    ultimately show ?thesis using ys(2) by auto
  qed
qed

lemma heapify_up_returns:
  assumes "i < length (arr h)"
  shows "\<exists>ys. heapify_up (int i) h = (Inr (), h\<lparr>arr := ys\<rparr>)
             \<and> length ys = length (arr h) \<and> mset ys = mset (arr h)"
  using assms
proof (induction i arbitrary: h rule: less_induct)
  case (less i)
  let ?p = "(i - 1) div 2"
  show ?case
  proof (cases "0 < i \<and> better (is_min_heap h) (arr h ! i) (arr h ! ?p)")
    case False
    then have "heapify_up (int i) h = (Inr (), h\<lparr>arr := arr h\<rparr>)"
      using heapify_up_zero[of h] heapify_up_step[OF _ less.prems] by (cases "i = 0") auto
    then show ?thesis by blast
  next
    case True
    let ?h' = "h\<lparr>arr := swap_list (arr h) i ?p\<rparr>"
    have p: "?p < i" "?p < length (arr ?h')" using True less.prems by auto
    from less.IH[OF p]
    obtain ys where ys: "heapify_up (int ?p) ?h' = (Inr (), ?h'\<lparr>arr := ys\<rparr>)"
      "length ys = length (arr ?h')" "mset ys = mset (arr ?h')" by blast
    have "heapify_up (int i) h = (Inr (), h\<lparr>arr := ys\<rparr>)"
      using heapify_up_step[OF _ less.prems] True ys(1) by simp
    moreover have "mset ys = mset (arr h)"
      using ys(3) swap_list_mset[of i "arr h" ?p] less.prems p by simp
    ultimately show ?thesis using ys(2) by auto
  qed
qed

lemma pop_returns:
  assumes ne: "arr h \<noteq> []"
  shows "\<exists>ys. pop h = (Inr (arr h ! 0), h\<lparr>arr := ys\<rparr>) \<and> Suc (length ys) = length (arr h)"
proof -
  let ?xs = "arr h"
  define n where "n = length ?xs"
  define l where "l = n - 1"
  have n0: "0 < n" using ne by (simp add: n_def)
  then have n: "l < n" "int n - 1 = int l" "Suc l = n" by (simp_all add: l_def of_nat_diff)
  define sw where "sw = swap_list ?xs 0 l"
  define zs where "zs = butlast sw"
  have lsw: "length sw = n" by (simp add: n_def sw_def)
  then have sw: "length sw = n" "sw \<noteq> []" using n0 by auto
  have zs: "length zs = l" using sw by (simp add: l_def zs_def)
  have swap: "heap_swap 0 (heap_size h - 1) h = (Inr (), h\<lparr>arr := sw\<rparr>)"
    using heap_swap_int[of 0 h l] n0 n(1,2) by (simp add: heap_size_def n_def sw_def)
  have get0: "getitem ?xs 0 = Inr (?xs ! 0)"
    using getitem_int[of 0 ?xs] n0 by (simp add: n_def)
  have popeq: "pop h =
     (if zs \<noteq> [] then
        (case heapify_down 0 (int (length zs)) (h\<lparr>arr := zs\<rparr>) of
           (Inl e, h3) \<Rightarrow> (Inl e, h3)
         | (Inr u, h3) \<Rightarrow> (Inr (?xs ! 0), h3))
      else (Inr (?xs ! 0), h\<lparr>arr := zs\<rparr>))"
    using ne get0 swap sw(2)
    by (simp add: pop_def is_empty_def list_pop_def Let_def heap_size_def flip: zs_def)
  have len: "Suc (length zs) = length ?xs" using zs n(3) by (simp add: n_def)
  have "length zs \<le> length (arr (h\<lparr>arr := zs\<rparr>))" by simp
  from heapify_down_returns[OF this, of 0]
  obtain ys where ys: "heapify_down 0 (int (length zs)) (h\<lparr>arr := zs\<rparr>) = (Inr (), h\<lparr>arr := ys\<rparr>)"
    "length ys = length zs" by auto
  show ?thesis
  proof (cases "zs = []")
    case True
    then show ?thesis using popeq len by auto
  next
    case False
    then have "pop h = (Inr (?xs ! 0), h\<lparr>arr := ys\<rparr>)" using popeq ys(1) by simp
    then show ?thesis using ys(2) len by auto
  qed
qed

lemma replace_returns:
  assumes mem: "oldValue \<in> set (arr h)"
  shows "\<exists>ys. replace oldValue newValue h = (Inr (), h\<lparr>arr := ys\<rparr>)"
proof -
  let ?xs = "arr h" and ?mn = "is_min_heap h"
  obtain k where k: "list_index ?xs oldValue = Some k"
    using mem list_index_None[of ?xs oldValue] by (cases "list_index ?xs oldValue") auto
  have kl: "k < length ?xs" using list_index_Some[OF k] by simp
  then have ne: "?xs \<noteq> []" by auto
  define zs where "zs = ?xs[k := newValue]"
  let ?h1 = "h\<lparr>arr := zs\<rparr>"
  have lz: "length zs = length ?xs" by (simp add: zs_def)
  have set: "setitem ?xs (int k) newValue = Inr zs" using kl by (simp add: setitem_int zs_def)
  have cmp: "\<exists>b. heap_compare (int k) (heap_parent (int k)) ?h1 = Inr b" if "0 < k"
  proof -
    have "(k - 1) div 2 < length zs" using that kl lz by auto
    then show ?thesis
      using heap_compare_int[of k ?h1 "(k - 1) div 2"] kl lz that by (simp add: heap_parent_int)
  qed
  have "replace oldValue newValue h = heapify_up (int k) ?h1
      \<or> replace oldValue newValue h = heapify_down (int k) (int (length zs)) ?h1"
    using ne k set cmp
    by (cases "0 < k") (auto simp add: replace_def is_empty_def Let_def heap_size_def)
  moreover have "\<exists>ys. heapify_up (int k) ?h1 = (Inr (), h\<lparr>arr := ys\<rparr>)"
    using heapify_up_returns[of k ?h1] kl lz by auto
  moreover have "\<exists>ys. heapify_down (int k) (int (length zs)) ?h1 = (Inr (), h\<lparr>arr := ys\<rparr>)"
    using heapify_down_returns[of "length zs" ?h1 k] by auto
  ultimately show ?thesis by auto
qed

lemma heapify_down_noop:
  assumes "n \<le> length (arr h)" "covers (is_min_heap h) (arr h) n (arr h ! i) i"
  shows "heapify_down (int i) (int n) h = (Inr (), h)"
proof -
  have "select_child (is_min_heap h) (arr h) i n = i"
    using assms(2)
    by (auto simp: select_child_def covers_def Let_def better_def heap_order_def split: if_splits)
  then show ?thesis using heapify_down_step[OF assms(1), of i] by simp
qed

lemma build_heap_loop_noop:
  assumes "heap_invariant h" "\<forall>i \<in> set is. i < length (arr h)"
  shows "build_heap_loop (map int is) h = (Inr (), h)"
  using assms(2)
proof (induction "is")
  case Nil
  then show ?case by simp
next
  case (Cons i rest)
  have "covers (is_min_heap h) (arr h) (length (arr h)) (arr h ! i) i"
    using assms(1) Cons.prems by (simp add: heap_invariant_iff heap_from_def)
  then have "heapify_down (int i) (heap_size h) h = (Inr (), h)"
    using heapify_down_noop[of "length (arr h)" h i] by (simp add: heap_size_def)
  then show ?case using Cons by simp
qed

lemma build_heap_noop:
  assumes "heap_invariant h"
  shows "build_heap h = (Inr (), h)"
proof -
  have "build_heap h = build_heap_loop (map int (rev [0..<length (arr h) div 2])) h"
    by (simp add: build_heap_def heap_size_def range_down_int)
  moreover have "\<forall>i \<in> set (rev [0..<length (arr h) div 2]). i < length (arr h)" by auto
  ultimately show ?thesis using build_heap_loop_noop[OF assms] by simp
qed

section \<open>The claims\<close>

text \<open>
  C1 (push_pop against push followed by pop). The claim says that on every non-empty heap of
  either polarity \<open>push_pop v\<close> returns what \<open>push v\<close> followed by \<open>pop\<close> returns and
  leaves the same multiset, and that on the max-heap built from 10, 4, 7 \<open>push_pop 20\<close>
  returns 20 and leaves 10, 4, 7. The code does otherwise on that very heap: the test of
  \<open>push_pop\<close> is true for every value when the heap is a max-heap, so the root 10 is
  returned and 20 takes its place, while push followed by pop returns 20.
\<close>

theorem push_pop_max_heap_returns_root:
  "init [10, 4, 7] False = (Inr (), \<lparr>arr = [10, 4, 7], is_min_heap = False\<rparr>)
   \<and> push_pop 20 \<lparr>arr = [10, 4, 7], is_min_heap = False\<rparr>
       = (Inr 10, \<lparr>arr = [20, 4, 7], is_min_heap = False\<rparr>)
   \<and> push_then_pop 20 \<lparr>arr = [10, 4, 7], is_min_heap = False\<rparr>
       = (Inr 20, \<lparr>arr = [10, 4, 7], is_min_heap = False\<rparr>)"
  by (simp add: heap_eval push_then_pop_def)

text \<open>
  C2 (peek). The claim says that \<open>peek\<close> returns the root of a non-empty heap and None on
  an empty one, and 9 on the max-heap built from 3, 1, 4, 1, 5, 9, 2, 6. The code never
  raises, but it returns None on every heap: its condition is the method object
  \<open>self.is_empty\<close>, which is true whatever the heap holds. On the heap of the example the
  root is 9 and \<open>peek\<close> returns None.
\<close>

theorem peek_returns_None_on_every_heap:
  "peek h = Inr None
   \<and> init [3, 1, 4, 1, 5, 9, 2, 6] False
       = (Inr (), \<lparr>arr = [9, 6, 4, 1, 5, 3, 2, 1], is_min_heap = False\<rparr>)
   \<and> peek \<lparr>arr = [9, 6, 4, 1, 5, 3, 2, 1], is_min_heap = False\<rparr> = Inr None"
  by (simp add: heap_eval)

text \<open>
  C5 (errors and the state they leave). \<open>pop\<close> raises exactly when the heap is empty, and
  what it raises then is IndexError "Pop from empty heap"; on a non-empty heap \<open>replace\<close>
  raises exactly when the old value is not in the list, and what it raises then is
  ValueError "<old value> not found in heap". In both cases the heap after the call is the
  heap before it, list and polarity.
\<close>

theorem pop_and_replace_errors_keep_heap:
  "((\<exists>e. fst (pop h) = Inl e) \<longleftrightarrow> heap_size h = 0)
   \<and> (heap_size h = 0 \<longrightarrow> pop h = (Inl (IndexError ''Pop from empty heap''), h))
   \<and> (heap_size h \<noteq> 0 \<longrightarrow>
        ((\<exists>e. fst (replace oldValue newValue h) = Inl e) \<longleftrightarrow> oldValue \<notin> set (arr h)))
   \<and> (heap_size h \<noteq> 0 \<and> oldValue \<notin> set (arr h) \<longrightarrow>
        replace oldValue newValue h
          = (Inl (ValueError (str_int oldValue @ '' not found in heap'')), h))"
proof -
  have pop_empty: "pop h = (Inl (IndexError ''Pop from empty heap''), h)" if "arr h = []"
    using that by (simp add: pop_def is_empty_def)
  have pop_ok: "\<not> (\<exists>e. fst (pop h) = Inl e)" if "arr h \<noteq> []"
    using pop_returns[OF that] by auto
  have rep_missing: "replace oldValue newValue h
          = (Inl (ValueError (str_int oldValue @ '' not found in heap'')), h)"
    if "arr h \<noteq> []" "oldValue \<notin> set (arr h)"
    using that list_index_None[of "arr h" oldValue] by (simp add: replace_def is_empty_def)
  have rep_ok: "\<not> (\<exists>e. fst (replace oldValue newValue h) = Inl e)" if "oldValue \<in> set (arr h)"
    using replace_returns[OF that, of newValue] by auto
  have size: "heap_size h = 0 \<longleftrightarrow> arr h = []" by (simp add: heap_size_def)
  show ?thesis
    unfolding size using pop_empty pop_ok rep_missing rep_ok
    by (cases "arr h = []"; cases "oldValue \<in> set (arr h)") auto
qed

theorem pop_and_replace_errors_keep_heap_witness:
  "heap_size \<lparr>arr = [1, 3, 8, 5], is_min_heap = True\<rparr> \<noteq> 0
   \<and> 9 \<notin> set (arr \<lparr>arr = [1, 3, 8, 5], is_min_heap = True\<rparr>)
   \<and> replace 9 0 \<lparr>arr = [1, 3, 8, 5], is_min_heap = True\<rparr>
       = (Inl (ValueError (str_int 9 @ '' not found in heap'')),
          \<lparr>arr = [1, 3, 8, 5], is_min_heap = True\<rparr>)
   \<and> heap_size \<lparr>arr = [], is_min_heap = False\<rparr> = 0
   \<and> pop \<lparr>arr = [], is_min_heap = False\<rparr>
       = (Inl (IndexError ''Pop from empty heap''), \<lparr>arr = [], is_min_heap = False\<rparr>)"
  using pop_and_replace_errors_keep_heap[of "\<lparr>arr = [1, 3, 8, 5], is_min_heap = True\<rparr>" 9 0]
    pop_and_replace_errors_keep_heap[of "\<lparr>arr = [], is_min_heap = False\<rparr>" 9 0]
  by (simp add: heap_size_def)

text \<open>
  C10 (replace on an empty heap). On an empty heap \<open>replace\<close> raises
  ValueError "Heap is empty" and leaves the heap empty with its polarity, whatever the two
  values are; the test comes before the search of the list, and the message differs from
  the one raised when the value is not found.
\<close>

theorem replace_on_empty_heap:
  "replace oldValue newValue \<lparr>arr = [], is_min_heap = m\<rparr>
     = (Inl (ValueError ''Heap is empty''), \<lparr>arr = [], is_min_heap = m\<rparr>)
   \<and> ValueError ''Heap is empty'' \<noteq> ValueError (str_int oldValue @ '' not found in heap'')"
proof -
  have "length ''Heap is empty'' < length (str_int oldValue @ '' not found in heap'')"
    by simp
  then have "''Heap is empty'' \<noteq> str_int oldValue @ '' not found in heap''"
    by (metis less_irrefl)
  then show ?thesis by (simp add: replace_def is_empty_def)
qed

lemma heap_invariant_eval:
  "heap_invariant h \<longleftrightarrow>
     list_all (\<lambda>i. list_all (\<lambda>c. c < length (arr h) \<longrightarrow>
                  heap_order (is_min_heap h) (arr h ! i) (arr h ! c)) [2 * i + 1, 2 * i + 2])
       [0..<length (arr h)]"
  by (simp add: heap_invariant_def list_all_iff)

lemma heap_order_sorted: "sorted_wrt (heap_order True) out = sorted out"
proof -
  have "heap_order True = (\<le>)" by (intro ext) (simp add: heap_order_def)
  then show ?thesis by simp
qed

lemma heap_order_sorted_rev: "sorted_wrt (heap_order False) out = sorted (rev out)"
proof -
  have "heap_order False = (\<lambda>x y. y \<le> x)" by (intro ext) (simp add: heap_order_def)
  then show ?thesis by (simp add: sorted_wrt_rev)
qed

lemma rev_upt_map: "map int (rev [0..<m]) = map (\<lambda>j. int m - 1 - int j) [0..<m]"
  by (rule nth_equalityI) (auto simp: rev_nth of_nat_diff)

lemma after_call_invariant:
  assumes inv: "heap_invariant h"
  shows "heap_invariant (after_call c h)"
proof (cases c)
  case (Push v)
  then show ?thesis using push_heap[OF inv, of v] by auto
next
  case Pop
  show ?thesis
  proof (cases "arr h = []")
    case True
    then have "pop h = (Inl (IndexError ''Pop from empty heap''), h)"
      by (simp add: pop_def is_empty_def)
    then show ?thesis using Pop inv by simp
  next
    case False
    then show ?thesis using pop_heap[OF inv False] Pop by auto
  qed
next
  case (PushPop v)
  show ?thesis
  proof (cases "arr h = []")
    case True
    have "heap_invariant (h\<lparr>arr := [v]\<rparr>)" by (simp add: heap_invariant_short)
    then show ?thesis using push_pop_empty[OF True, of v] PushPop by simp
  next
    case False
    show ?thesis
      using push_pop_nonempty[OF inv False, of v] inv PushPop
      by (auto split: if_splits)
  qed
next
  case (Replace oldValue newValue)
  show ?thesis
  proof (cases "oldValue \<in> set (arr h)")
    case True
    then show ?thesis using replace_heap[OF inv True, of newValue] Replace by auto
  next
    case False
    then have "snd (replace oldValue newValue h) = h"
      using list_index_None[of "arr h" oldValue] by (simp add: replace_def)
    then show ?thesis using Replace inv by simp
  qed
next
  case Clear
  then show ?thesis by (simp add: clear_def heap_invariant_def)
next
  case BuildHeap
  then show ?thesis using build_heap_heap[of h] by auto
qed

lemma fold_after_call_invariant:
  "heap_invariant h \<Longrightarrow> heap_invariant (fold after_call cs h)"
  by (induction cs arbitrary: h) (simp_all add: after_call_invariant)

text \<open>
  C3 (the invariant after every public mutating operation). The heap invariant, for every
  index i below the size and every child c in {2i+1, 2i+2} below the size the element at i
  is at most (min-heap) or at least (max-heap) the element at c, holds after construction
  and after \<open>build_heap\<close> on any list, after \<open>clear\<close>, and, on a heap that satisfies it,
  after \<open>push\<close>, \<open>pop\<close> on a non-empty heap, \<open>push_pop\<close>, and \<open>replace\<close> of a value the heap
  holds; each of these calls returns without raising. Hence it holds after every sequence
  of such calls on a constructed heap (a call that raises leaves the heap as it was).
\<close>

theorem invariant_after_public_mutators:
  "(\<exists>h'. init a m = (Inr (), h') \<and> heap_invariant h')
   \<and> (\<exists>h'. build_heap h = (Inr (), h') \<and> heap_invariant h')
   \<and> (\<exists>h'. clear h = (Inr (), h') \<and> heap_invariant h')
   \<and> (heap_invariant h \<longrightarrow> (\<exists>h'. push v h = (Inr (), h') \<and> heap_invariant h'))
   \<and> (heap_invariant h \<and> arr h \<noteq> [] \<longrightarrow> (\<exists>r h'. pop h = (Inr r, h') \<and> heap_invariant h'))
   \<and> (heap_invariant h \<longrightarrow> (\<exists>r h'. push_pop v h = (Inr r, h') \<and> heap_invariant h'))
   \<and> (heap_invariant h \<and> oldValue \<in> set (arr h) \<longrightarrow>
        (\<exists>h'. replace oldValue newValue h = (Inr (), h') \<and> heap_invariant h'))
   \<and> (\<exists>h0. init a m = (Inr (), h0) \<and> heap_invariant (fold after_call cs h0))"
proof -
  have i: "\<exists>h'. init a m = (Inr (), h') \<and> heap_invariant h'"
    using build_heap_heap[of "\<lparr>arr = a, is_min_heap = m\<rparr>"] unfolding init_def by blast
  have b: "\<exists>h'. build_heap h = (Inr (), h') \<and> heap_invariant h'"
    using build_heap_heap[of h] by blast
  have c: "\<exists>h'. clear h = (Inr (), h') \<and> heap_invariant h'"
    by (simp add: clear_def heap_invariant_def)
  have pu: "\<exists>h'. push v h = (Inr (), h') \<and> heap_invariant h'" if "heap_invariant h"
    using push_heap[OF that, of v] by blast
  have po: "\<exists>r h'. pop h = (Inr r, h') \<and> heap_invariant h'" if "heap_invariant h" "arr h \<noteq> []"
    using pop_heap[OF that] by blast
  have pp: "\<exists>r h'. push_pop v h = (Inr r, h') \<and> heap_invariant h'" if inv: "heap_invariant h"
  proof (cases "arr h = []")
    case True
    have "heap_invariant (h\<lparr>arr := [v]\<rparr>)" by (simp add: heap_invariant_short)
    then show ?thesis using push_pop_empty[OF True, of v] by blast
  next
    case False
    show ?thesis
      using push_pop_nonempty[OF inv False, of v] inv
      by (auto split: if_splits)
  qed
  have re: "\<exists>h'. replace oldValue newValue h = (Inr (), h') \<and> heap_invariant h'"
    if "heap_invariant h" "oldValue \<in> set (arr h)"
    using replace_heap[OF that, of newValue] by blast
  have sq: "\<exists>h0. init a m = (Inr (), h0) \<and> heap_invariant (fold after_call cs h0)"
    using i fold_after_call_invariant by blast
  show ?thesis using i b c pu po pp re sq by blast
qed

theorem invariant_after_public_mutators_witness:
  "heap_invariant \<lparr>arr = [1, 3, 8, 5], is_min_heap = True\<rparr>
   \<and> arr \<lparr>arr = [1, 3, 8, 5], is_min_heap = True\<rparr> \<noteq> []
   \<and> 8 \<in> set (arr \<lparr>arr = [1, 3, 8, 5], is_min_heap = True\<rparr>)
   \<and> (\<exists>h'. push 0 \<lparr>arr = [1, 3, 8, 5], is_min_heap = True\<rparr> = (Inr (), h') \<and> heap_invariant h')
   \<and> (\<exists>r h'. pop \<lparr>arr = [1, 3, 8, 5], is_min_heap = True\<rparr> = (Inr r, h') \<and> heap_invariant h')
   \<and> (\<exists>r h'. push_pop 0 \<lparr>arr = [1, 3, 8, 5], is_min_heap = True\<rparr> = (Inr r, h')
         \<and> heap_invariant h')
   \<and> (\<exists>h'. replace 8 0 \<lparr>arr = [1, 3, 8, 5], is_min_heap = True\<rparr> = (Inr (), h')
         \<and> heap_invariant h')"
proof -
  have inv: "heap_invariant \<lparr>arr = [1, 3, 8, 5], is_min_heap = True\<rparr>"
    by (simp add: heap_invariant_eval heap_order_def upt_rec)
  show ?thesis
    using invariant_after_public_mutators[where h = "\<lparr>arr = [1, 3, 8, 5], is_min_heap = True\<rparr>"
        and v = 0 and oldValue = 8 and newValue = 0] inv
    by simp
qed

text \<open>
  C4 (popping until empty sorts). For every list of initial values and either polarity,
  constructing the heap and popping until it is empty raises nothing and yields a sequence
  that is a permutation of the initial values, non-decreasing for a min-heap and
  non-increasing for a max-heap.
\<close>

theorem pop_all_sorted_permutation:
  "\<exists>h out. init xs isMinHeap = (Inr (), h)
         \<and> pop_all h = (Inr out, h\<lparr>arr := []\<rparr>)
         \<and> mset out = mset xs
         \<and> (if isMinHeap then sorted out else sorted (rev out))"
proof -
  obtain ys where ys: "init xs isMinHeap = (Inr (), \<lparr>arr = ys, is_min_heap = isMinHeap\<rparr>)"
    "mset ys = mset xs" "heap_invariant \<lparr>arr = ys, is_min_heap = isMinHeap\<rparr>"
    using build_heap_heap[of "\<lparr>arr = xs, is_min_heap = isMinHeap\<rparr>"] unfolding init_def by auto
  let ?h = "\<lparr>arr = ys, is_min_heap = isMinHeap\<rparr>"
  from pop_all_sorted[OF ys(3)]
  obtain out where out: "pop_all ?h = (Inr out, ?h\<lparr>arr := []\<rparr>)" "mset out = mset ys"
    "sorted_wrt (heap_order isMinHeap) out" by auto
  have "if isMinHeap then sorted out else sorted (rev out)"
    using out(3) heap_order_sorted[of out] heap_order_sorted_rev[of out] by (cases isMinHeap) auto
  then show ?thesis using ys(1,2) out(1,2) by auto
qed

theorem pop_all_sorted_permutation_witness:
  "\<exists>h out. init [3, 1, 2] False = (Inr (), h)
         \<and> pop_all h = (Inr out, h\<lparr>arr := []\<rparr>)
         \<and> mset out = mset [3, 1, 2]
         \<and> sorted (rev out)"
  using pop_all_sorted_permutation[of "[3, 1, 2]" False] by simp

text \<open>
  C6 (build_heap). The loop of \<open>build_heap\<close> visits the indices floor(size / 2) - 1,
  floor(size / 2) - 2, ..., 0 in this order and calls \<open>heapify_down\<close> with the full size at
  each. On every list it returns without raising, the list it leaves is a permutation of
  the list it found, and the invariant holds on it. On a heap that already satisfies the
  invariant it changes nothing, not even the order of the list.
\<close>

theorem build_heap_restores_invariant:
  "range_down (heap_size h div 2 - 1)
     = map (\<lambda>j. int (length (arr h) div 2) - 1 - int j) [0..<length (arr h) div 2]
   \<and> build_heap h = build_heap_loop (range_down (heap_size h div 2 - 1)) h
   \<and> (\<exists>ys. build_heap h = (Inr (), h\<lparr>arr := ys\<rparr>)
          \<and> mset ys = mset (arr h)
          \<and> heap_invariant (h\<lparr>arr := ys\<rparr>))
   \<and> (heap_invariant h \<longrightarrow> build_heap h = (Inr (), h))"
proof -
  have "range_down (heap_size h div 2 - 1)
     = map (\<lambda>j. int (length (arr h) div 2) - 1 - int j) [0..<length (arr h) div 2]"
    using range_down_int[of "length (arr h)"] rev_upt_map[of "length (arr h) div 2"]
    by (simp add: heap_size_def)
  moreover have "build_heap h = build_heap_loop (range_down (heap_size h div 2 - 1)) h"
    by (simp add: build_heap_def)
  ultimately show ?thesis
    using build_heap_heap[of h] build_heap_noop[of h] by blast
qed

theorem build_heap_restores_invariant_witness:
  "heap_invariant \<lparr>arr = [9, 6, 4, 1], is_min_heap = False\<rparr>
   \<and> build_heap \<lparr>arr = [9, 6, 4, 1], is_min_heap = False\<rparr>
       = (Inr (), \<lparr>arr = [9, 6, 4, 1], is_min_heap = False\<rparr>)"
proof -
  have inv: "heap_invariant \<lparr>arr = [9, 6, 4, 1], is_min_heap = False\<rparr>"
    by (simp add: heap_invariant_eval heap_order_def upt_rec)
  with build_heap_restores_invariant[of "\<lparr>arr = [9, 6, 4, 1], is_min_heap = False\<rparr>"]
  show ?thesis by blast
qed

lemma ancestor_or_self_refl: "ancestor_or_self a a"
  by (subst ancestor_or_self.simps) simp

lemma ancestor_or_self_le: "ancestor_or_self a j \<Longrightarrow> a \<le> j"
  by (subst (asm) ancestor_or_self.simps) (auto split: if_splits)

lemma ancestor_or_self_child:
  assumes "c = 2 * i + 1 \<or> c = 2 * i + 2" "ancestor_or_self c j"
  shows "ancestor_or_self i j"
  using assms(2)
proof (induction j rule: less_induct)
  case (less j)
  have ci: "(c - 1) div 2 = i" "i < c" using assms(1) by auto
  show ?case
  proof (cases "j = c")
    case True
    then show ?thesis
      using ci ancestor_or_self_refl[of i] by (subst ancestor_or_self.simps) simp
  next
    case False
    then have up: "c < j" "ancestor_or_self c ((j - 1) div 2)"
      using less.prems by (subst (asm) ancestor_or_self.simps, simp split: if_splits)+
    have "(j - 1) div 2 < j" using up(1) by auto
    from less.IH[OF this up(2)] have "ancestor_or_self i ((j - 1) div 2)" .
    then show ?thesis using up(1) ci(2) by (subst ancestor_or_self.simps) simp
  qed
qed

lemma ancestor_or_self_parent:
  assumes "0 < i" "ancestor_or_self j ((i - 1) div 2)"
  shows "ancestor_or_self j i"
proof -
  have "j \<le> (i - 1) div 2" using assms(2) by (rule ancestor_or_self_le)
  then have "j < i" using assms(1) by auto
  then show ?thesis using assms(2) by (subst ancestor_or_self.simps) simp
qed

lemma heapify_down_frame:
  assumes "n \<le> length (arr h)" "\<not> ancestor_or_self i j"
  shows "arr (snd (heapify_down (int i) (int n) h)) ! j = arr h ! j"
  using assms
proof (induction "n - i" arbitrary: i h rule: less_induct)
  case less
  let ?c = "select_child (is_min_heap h) (arr h) i n"
  note step = heapify_down_step[OF less.prems(1), of i]
  show ?case
  proof (cases "?c = i")
    case True
    then show ?thesis using step by (simp add: Let_def)
  next
    case False
    note sel = select_child_other[OF False]
    let ?h' = "h\<lparr>arr := swap_list (arr h) i ?c\<rparr>"
    have ji: "j \<noteq> i" using less.prems(2) ancestor_or_self_refl by auto
    have anc: "ancestor_or_self i ?c"
      using ancestor_or_self_child[of ?c i ?c] sel ancestor_or_self_refl by blast
    then have jc: "j \<noteq> ?c" using less.prems(2) by auto
    have nc: "\<not> ancestor_or_self ?c j"
      using ancestor_or_self_child[of ?c i j] sel less.prems(2) by blast
    have "n - ?c < n - i" "n \<le> length (arr ?h')" using sel less.prems by auto
    from less.hyps[OF this nc]
    have "arr (snd (heapify_down (int ?c) (int n) ?h')) ! j = swap_list (arr h) i ?c ! j" by simp
    also have "\<dots> = arr h ! j" using ji jc by (simp add: swap_list_def)
    finally show ?thesis using step False by (simp add: Let_def)
  qed
qed

lemma heapify_up_frame:
  assumes "i < length (arr h)" "\<not> ancestor_or_self j i"
  shows "arr (snd (heapify_up (int i) h)) ! j = arr h ! j"
  using assms
proof (induction i arbitrary: h rule: less_induct)
  case (less i)
  let ?p = "(i - 1) div 2"
  show ?case
  proof (cases "0 < i \<and> better (is_min_heap h) (arr h ! i) (arr h ! ?p)")
    case False
    then have "heapify_up (int i) h = (Inr (), h)"
      using heapify_up_zero[of h] heapify_up_step[OF _ less.prems(1)] by (cases "i = 0") auto
    then show ?thesis by simp
  next
    case True
    let ?h' = "h\<lparr>arr := swap_list (arr h) i ?p\<rparr>"
    have p: "?p < i" "?p < length (arr ?h')" using True less.prems(1) by auto
    have ji: "j \<noteq> i" using less.prems(2) ancestor_or_self_refl by auto
    have np: "\<not> ancestor_or_self j ?p"
      using ancestor_or_self_parent[of i j] True less.prems(2) by blast
    then have jp: "j \<noteq> ?p" using ancestor_or_self_refl by auto
    from less.IH[OF p np]
    have "arr (snd (heapify_up (int ?p) ?h')) ! j = swap_list (arr h) i ?p ! j" by simp
    also have "\<dots> = arr h ! j" using ji jp by (simp add: swap_list_def)
    finally show ?thesis using heapify_up_step[OF _ less.prems(1)] True by simp
  qed
qed

lemma replace_unfold:
  assumes k: "list_index (arr h) oldValue = Some k"
  shows "replace oldValue newValue h =
     (if 0 < k \<and> better (is_min_heap h) newValue (arr h ! ((k - 1) div 2))
      then heapify_up (int k) (h\<lparr>arr := (arr h)[k := newValue]\<rparr>)
      else heapify_down (int k) (int (length (arr h))) (h\<lparr>arr := (arr h)[k := newValue]\<rparr>))"
proof -
  let ?xs = "arr h" and ?mn = "is_min_heap h"
  have kl: "k < length ?xs" using list_index_Some[OF k] by simp
  then have ne: "?xs \<noteq> []" by auto
  define zs where "zs = ?xs[k := newValue]"
  define p where "p = (k - 1) div 2"
  let ?h1 = "h\<lparr>arr := zs\<rparr>"
  have lz: "length zs = length ?xs" by (simp add: zs_def)
  have zk: "zs ! k = newValue" using kl by (simp add: zs_def)
  have set: "setitem ?xs (int k) newValue = Inr zs" using kl by (simp add: setitem_int zs_def)
  have cmp: "heap_compare (int k) (heap_parent (int k)) ?h1 = Inr (better ?mn newValue (?xs ! p))"
    if "0 < k"
  proof -
    have "p < k" using that by (auto simp: p_def)
    then have "zs ! p = ?xs ! p" "p < length zs" using kl by (simp_all add: zs_def)
    then show ?thesis
      using heap_compare_int[of k ?h1 p] kl lz zk that by (simp add: heap_parent_int p_def)
  qed
  have "replace oldValue newValue h =
     (if 0 < k \<and> better ?mn newValue (?xs ! p) then heapify_up (int k) ?h1
      else heapify_down (int k) (int (length zs)) ?h1)"
    using ne k set cmp
    by (cases "0 < k") (simp_all add: replace_def is_empty_def Let_def heap_size_def)
  then show ?thesis unfolding zs_def p_def by simp
qed

lemma replace_frame:
  assumes k: "list_index (arr h) oldValue = Some k"
    and j: "\<not> ancestor_or_self j k" "\<not> ancestor_or_self k j"
  shows "arr (snd (replace oldValue newValue h)) ! j = arr h ! j"
proof -
  let ?h1 = "h\<lparr>arr := (arr h)[k := newValue]\<rparr>"
  have kl: "k < length (arr ?h1)" using list_index_Some[OF k] by simp
  have jk: "j \<noteq> k" using j(1) ancestor_or_self_refl by auto
  have "arr (snd (heapify_up (int k) ?h1)) ! j = arr ?h1 ! j"
    using heapify_up_frame[OF kl j(1)] .
  moreover have "arr (snd (heapify_down (int k) (int (length (arr h))) ?h1)) ! j = arr ?h1 ! j"
    using heapify_down_frame[of "length (arr h)" ?h1 k j] j(2) by simp
  moreover have "arr ?h1 ! j = arr h ! j" using jk by simp
  ultimately show ?thesis unfolding replace_unfold[OF k] by simp
qed

text \<open>
  C7 (replace). On a heap that satisfies the invariant and holds the old value,
  \<open>replace\<close> returns without raising. The position \<open>k\<close> it overwrites is the first one that
  holds the old value: what it returns is what \<open>heapify_up\<close> at \<open>k\<close> (when \<open>k\<close> is not the root
  and the new value has strict priority over the parent of \<open>k\<close>) or else \<open>heapify_down\<close> at
  \<open>k\<close> returns on the list whose position \<open>k\<close>, and no other, holds the new value in place of
  the old one; every position that is neither \<open>k\<close>, nor above \<open>k\<close> on its way to the root, nor
  below \<open>k\<close> in its subtree, holds what it held, so any other occurrence of the old value
  there is kept. The list it leaves is a permutation of the old list with that one
  occurrence replaced by the new value: when the two values differ the new value occurs
  once more and the old value once less than before. The invariant holds afterwards.
  On the min-heap built from 5, 3, 8, 1, which is the list 1, 3, 8, 5, replacing 8 by 0
  leaves the list 0, 3, 1, 5, whose root is 0. On the max-heap 9, 5, 5, 1, 2, replacing 5
  by 0 overwrites position 1 and leaves 9, 2, 5, 1, 0: the 5 at position 2 stays.
\<close>

theorem replace_first_occurrence:
  "(heap_invariant h \<and> oldValue \<in> set (arr h) \<longrightarrow>
      (\<exists>k ys. k < length (arr h) \<and> arr h ! k = oldValue \<and> (\<forall>j<k. arr h ! j \<noteq> oldValue)
         \<and> replace oldValue newValue h = (Inr (), h\<lparr>arr := ys\<rparr>)
         \<and> (Inr (), h\<lparr>arr := ys\<rparr>)
             = (if 0 < k \<and> better (is_min_heap h) newValue (arr h ! ((k - 1) div 2))
                then heapify_up (int k) (h\<lparr>arr := (arr h)[k := newValue]\<rparr>)
                else heapify_down (int k) (int (length (arr h)))
                       (h\<lparr>arr := (arr h)[k := newValue]\<rparr>))
         \<and> (\<forall>j. \<not> ancestor_or_self j k \<and> \<not> ancestor_or_self k j \<longrightarrow> ys ! j = arr h ! j)
         \<and> mset ys = mset ((arr h)[k := newValue])
         \<and> (oldValue \<noteq> newValue \<longrightarrow>
               count (mset ys) newValue = count (mset (arr h)) newValue + 1
             \<and> count (mset ys) oldValue + 1 = count (mset (arr h)) oldValue)
         \<and> heap_invariant (h\<lparr>arr := ys\<rparr>)))
   \<and> init [5, 3, 8, 1] True = (Inr (), \<lparr>arr = [1, 3, 8, 5], is_min_heap = True\<rparr>)
   \<and> replace 8 0 \<lparr>arr = [1, 3, 8, 5], is_min_heap = True\<rparr>
       = (Inr (), \<lparr>arr = [0, 3, 1, 5], is_min_heap = True\<rparr>)
   \<and> arr \<lparr>arr = [0, 3, 1, 5], is_min_heap = True\<rparr> ! 0 = 0
   \<and> replace 5 0 \<lparr>arr = [9, 5, 5, 1, 2], is_min_heap = False\<rparr>
       = (Inr (), \<lparr>arr = [9, 2, 5, 1, 0], is_min_heap = False\<rparr>)"
proof -
  have gen: "\<exists>k ys. k < length (arr h) \<and> arr h ! k = oldValue \<and> (\<forall>j<k. arr h ! j \<noteq> oldValue)
         \<and> replace oldValue newValue h = (Inr (), h\<lparr>arr := ys\<rparr>)
         \<and> (Inr (), h\<lparr>arr := ys\<rparr>)
             = (if 0 < k \<and> better (is_min_heap h) newValue (arr h ! ((k - 1) div 2))
                then heapify_up (int k) (h\<lparr>arr := (arr h)[k := newValue]\<rparr>)
                else heapify_down (int k) (int (length (arr h)))
                       (h\<lparr>arr := (arr h)[k := newValue]\<rparr>))
         \<and> (\<forall>j. \<not> ancestor_or_self j k \<and> \<not> ancestor_or_self k j \<longrightarrow> ys ! j = arr h ! j)
         \<and> mset ys = mset ((arr h)[k := newValue])
         \<and> (oldValue \<noteq> newValue \<longrightarrow>
               count (mset ys) newValue = count (mset (arr h)) newValue + 1
             \<and> count (mset ys) oldValue + 1 = count (mset (arr h)) oldValue)
         \<and> heap_invariant (h\<lparr>arr := ys\<rparr>)"
    if inv: "heap_invariant h" and mem: "oldValue \<in> set (arr h)"
  proof -
    from replace_heap[OF inv mem, of newValue]
    obtain k ys where r: "list_index (arr h) oldValue = Some k"
      "replace oldValue newValue h = (Inr (), h\<lparr>arr := ys\<rparr>)"
      "mset ys = mset ((arr h)[k := newValue])" "heap_invariant (h\<lparr>arr := ys\<rparr>)" by blast
    note k = list_index_Some[OF r(1)]
    have m: "mset ys = add_mset newValue (mset (arr h) - {#oldValue#})"
      using r(3) k by (simp add: mset_update)
    have "count (mset (arr h)) oldValue > 0" using mem by simp
    then have cnt: "oldValue \<noteq> newValue \<longrightarrow>
               count (mset ys) newValue = count (mset (arr h)) newValue + 1
             \<and> count (mset ys) oldValue + 1 = count (mset (arr h)) oldValue"
      unfolding m by auto
    have sift: "(Inr (), h\<lparr>arr := ys\<rparr>)
             = (if 0 < k \<and> better (is_min_heap h) newValue (arr h ! ((k - 1) div 2))
                then heapify_up (int k) (h\<lparr>arr := (arr h)[k := newValue]\<rparr>)
                else heapify_down (int k) (int (length (arr h)))
                       (h\<lparr>arr := (arr h)[k := newValue]\<rparr>))"
      using replace_unfold[OF r(1), of newValue] r(2) by simp
    have frame: "ys ! j = arr h ! j"
      if "\<not> ancestor_or_self j k \<and> \<not> ancestor_or_self k j" for j
      using replace_frame[OF r(1), of j newValue] that r(2) by simp
    show ?thesis using r(2,3,4) k cnt sift frame by blast
  qed
  have ex: "init [5, 3, 8, 1] True = (Inr (), \<lparr>arr = [1, 3, 8, 5], is_min_heap = True\<rparr>)"
    "replace 8 0 \<lparr>arr = [1, 3, 8, 5], is_min_heap = True\<rparr>
       = (Inr (), \<lparr>arr = [0, 3, 1, 5], is_min_heap = True\<rparr>)"
    "replace 5 0 \<lparr>arr = [9, 5, 5, 1, 2], is_min_heap = False\<rparr>
       = (Inr (), \<lparr>arr = [9, 2, 5, 1, 0], is_min_heap = False\<rparr>)"
    by (simp_all add: heap_eval)
  have root: "arr \<lparr>arr = [0, 3, 1, 5], is_min_heap = True\<rparr> ! 0 = 0" by simp
  show ?thesis using gen ex root by blast
qed

theorem replace_first_occurrence_witness:
  "heap_invariant \<lparr>arr = [9, 5, 5, 1, 2], is_min_heap = False\<rparr>
   \<and> 5 \<in> set (arr \<lparr>arr = [9, 5, 5, 1, 2], is_min_heap = False\<rparr>)
   \<and> (\<exists>k ys. k < length (arr \<lparr>arr = [9, 5, 5, 1, 2], is_min_heap = False\<rparr>)
         \<and> arr \<lparr>arr = [9, 5, 5, 1, 2], is_min_heap = False\<rparr> ! k = 5
         \<and> (\<forall>j<k. arr \<lparr>arr = [9, 5, 5, 1, 2], is_min_heap = False\<rparr> ! j \<noteq> 5)
         \<and> replace 5 0 \<lparr>arr = [9, 5, 5, 1, 2], is_min_heap = False\<rparr>
             = (Inr (), \<lparr>arr = [9, 5, 5, 1, 2], is_min_heap = False\<rparr>\<lparr>arr := ys\<rparr>)
         \<and> (\<forall>j. \<not> ancestor_or_self j k \<and> \<not> ancestor_or_self k j
                \<longrightarrow> ys ! j = arr \<lparr>arr = [9, 5, 5, 1, 2], is_min_heap = False\<rparr> ! j)
         \<and> mset ys = mset ((arr \<lparr>arr = [9, 5, 5, 1, 2], is_min_heap = False\<rparr>)[k := 0])
         \<and> heap_invariant (\<lparr>arr = [9, 5, 5, 1, 2], is_min_heap = False\<rparr>\<lparr>arr := ys\<rparr>))"
proof -
  have inv: "heap_invariant \<lparr>arr = [9, 5, 5, 1, 2], is_min_heap = False\<rparr>"
    by (simp add: heap_invariant_eval heap_order_def upt_rec)
  have mem: "5 \<in> set (arr \<lparr>arr = [9, 5, 5, 1, 2], is_min_heap = False\<rparr>)" by simp
  from replace_first_occurrence[of "\<lparr>arr = [9, 5, 5, 1, 2], is_min_heap = False\<rparr>" 5 0] inv mem
  show ?thesis by blast
qed

text \<open>
  C9 (heapify_down terminates). For every index that is a list position or beyond and every
  logical size up to the length of the list, \<open>heapify_down\<close> returns without raising and
  leaves a permutation of the list. The index \<open>c\<close> it selects is the index itself or one of
  its two children below the logical size, and the element there has priority over or
  equal to the element at the index and at each child below the logical size. When \<open>c\<close> is
  not the index the two elements are swapped and the call continues at \<open>c\<close>, where the
  logical size minus the index is smaller; when \<open>c\<close> is the index the call returns at once
  with the heap as it was, and this is the case exactly when the index has priority over or
  equal to each of its children below the logical size (or has none).
\<close>

theorem heapify_down_terminates:
  "n \<le> length (arr h) \<longrightarrow>
     (\<exists>ys. heapify_down (int i) (int n) h = (Inr (), h\<lparr>arr := ys\<rparr>) \<and> mset ys = mset (arr h))
   \<and> (\<exists>c. c = select_child (is_min_heap h) (arr h) i n
        \<and> (c = i \<or> ((c = 2 * i + 1 \<or> c = 2 * i + 2) \<and> c < n))
        \<and> heap_order (is_min_heap h) (arr h ! c) (arr h ! i)
        \<and> (2 * i + 1 < n \<longrightarrow> heap_order (is_min_heap h) (arr h ! c) (arr h ! (2 * i + 1)))
        \<and> (2 * i + 2 < n \<longrightarrow> heap_order (is_min_heap h) (arr h ! c) (arr h ! (2 * i + 2)))
        \<and> (c \<noteq> i \<longrightarrow> n - c < n - i
              \<and> heapify_down (int i) (int n) h
                  = heapify_down (int c) (int n) (h\<lparr>arr := swap_list (arr h) i c\<rparr>))
        \<and> (c = i \<longrightarrow> heapify_down (int i) (int n) h = (Inr (), h))
        \<and> (c = i \<longleftrightarrow> covers (is_min_heap h) (arr h) n (arr h ! i) i))"
proof (intro impI)
  assume n: "n \<le> length (arr h)"
  let ?mn = "is_min_heap h" and ?xs = "arr h"
  let ?c = "select_child ?mn ?xs i n"
  note step = heapify_down_step[OF n, of i]
  have ret: "\<exists>ys. heapify_down (int i) (int n) h = (Inr (), h\<lparr>arr := ys\<rparr>) \<and> mset ys = mset ?xs"
    using heapify_down_returns[OF n, of i] by blast
  have stop: "?c = i \<longleftrightarrow> covers ?mn ?xs n (?xs ! i) i"
  proof
    assume "?c = i" then show "covers ?mn ?xs n (?xs ! i) i" by (rule select_child_self)
  next
    assume "covers ?mn ?xs n (?xs ! i) i"
    then show "?c = i"
      by (auto simp: select_child_def covers_def Let_def better_def heap_order_def split: if_splits)
  qed
  have sel: "(?c = i \<or> ((?c = 2 * i + 1 \<or> ?c = 2 * i + 2) \<and> ?c < n))
        \<and> heap_order ?mn (?xs ! ?c) (?xs ! i)
        \<and> (2 * i + 1 < n \<longrightarrow> heap_order ?mn (?xs ! ?c) (?xs ! (2 * i + 1)))
        \<and> (2 * i + 2 < n \<longrightarrow> heap_order ?mn (?xs ! ?c) (?xs ! (2 * i + 2)))"
  proof (cases "?c = i")
    case True
    then show ?thesis using select_child_self[OF True] by (simp add: heap_order_refl covers_def)
  next
    case False
    show ?thesis using select_child_other[OF False] better_order by (auto simp: covers_def)
  qed
  have rec: "n - ?c < n - i
       \<and> heapify_down (int i) (int n) h
          = heapify_down (int ?c) (int n) (h\<lparr>arr := swap_list ?xs i ?c\<rparr>)" if "?c \<noteq> i"
    using select_child_other[OF that] step that by auto
  have fin: "heapify_down (int i) (int n) h = (Inr (), h)" if "?c = i"
    using step that by simp
  show "(\<exists>ys. heapify_down (int i) (int n) h = (Inr (), h\<lparr>arr := ys\<rparr>) \<and> mset ys = mset ?xs)
   \<and> (\<exists>c. c = ?c
        \<and> (c = i \<or> ((c = 2 * i + 1 \<or> c = 2 * i + 2) \<and> c < n))
        \<and> heap_order ?mn (?xs ! c) (?xs ! i)
        \<and> (2 * i + 1 < n \<longrightarrow> heap_order ?mn (?xs ! c) (?xs ! (2 * i + 1)))
        \<and> (2 * i + 2 < n \<longrightarrow> heap_order ?mn (?xs ! c) (?xs ! (2 * i + 2)))
        \<and> (c \<noteq> i \<longrightarrow> n - c < n - i
              \<and> heapify_down (int i) (int n) h
                  = heapify_down (int c) (int n) (h\<lparr>arr := swap_list ?xs i c\<rparr>))
        \<and> (c = i \<longrightarrow> heapify_down (int i) (int n) h = (Inr (), h))
        \<and> (c = i \<longleftrightarrow> covers ?mn ?xs n (?xs ! i) i))"
    using ret sel rec fin stop by blast
qed

theorem heapify_down_terminates_witness:
  "(3::nat) \<le> length (arr \<lparr>arr = [2, 4, 7], is_min_heap = False\<rparr>)
   \<and> (\<exists>ys. heapify_down (int 0) (int 3) \<lparr>arr = [2, 4, 7], is_min_heap = False\<rparr>
             = (Inr (), \<lparr>arr = [2, 4, 7], is_min_heap = False\<rparr>\<lparr>arr := ys\<rparr>)
          \<and> mset ys = mset (arr \<lparr>arr = [2, 4, 7], is_min_heap = False\<rparr>))"
proof -
  have len: "(3::nat) \<le> length (arr \<lparr>arr = [2, 4, 7], is_min_heap = False\<rparr>)" by simp
  from heapify_down_terminates[of 3 "\<lparr>arr = [2, 4, 7], is_min_heap = False\<rparr>" 0] len
  show ?thesis by blast
qed

text \<open>
  Below zero the method is still defined: a negative index is a Python subscript that
  counts from the end, the indices \<open>2i + 1\<close> and \<open>2i + 2\<close> then move away from the
  logical size, and the call can end with an IndexError when one of them falls off the
  list, keeping the swaps made so far, as it does here.
\<close>

lemma heapify_down_negative_index:
  "heapify_down (- 2) 3 \<lparr>arr = [3, 1, 2], is_min_heap = False\<rparr>
     = (Inl (IndexError ''list index out of range''), \<lparr>arr = [1, 3, 2], is_min_heap = False\<rparr>)"
  by (simp add: heap_eval)

lemma call_obj_frame: "length (call_obj c ob s) = length s \<and> (b \<noteq> arr_ref ob \<longrightarrow> call_obj c ob s ! b = s ! b)"
  by (simp add: call_obj_def)

lemma calls_obj_frame:
  "length (calls_obj cs ob s) = length s \<and> (b \<noteq> arr_ref ob \<longrightarrow> calls_obj cs ob s ! b = s ! b)"
proof (induction cs arbitrary: s)
  case Nil
  then show ?case by simp
next
  case (Cons c cs)
  show ?case using Cons[of "call_obj c ob s"] call_obj_frame[of c ob s b] by simp
qed

lemma push_pop_returns: "\<exists>r ys. push_pop v h = (Inr r, h\<lparr>arr := ys\<rparr>)"
proof (cases "arr h = []")
  case True
  then show ?thesis using push_pop_empty[OF True, of v] by blast
next
  case False
  then have l0: "0 < length (arr h)" by simp
  have get0: "getitem (arr h) 0 = Inr (arr h ! 0)" using getitem_int[OF l0] by simp
  have set0: "setitem (arr h) 0 v = Inr ((arr h)[0 := v])" using setitem_int[OF l0] by simp
  let ?h1 = "h\<lparr>arr := (arr h)[0 := v]\<rparr>"
  obtain ys where ys: "heapify_down 0 (heap_size ?h1) ?h1 = (Inr (), h\<lparr>arr := ys\<rparr>)"
    using heapify_down_returns[of "length (arr ?h1)" ?h1 0] by (auto simp: heap_size_def)
  have "push_pop v h = (Inr (arr h ! 0), h\<lparr>arr := ys\<rparr>) \<or> push_pop v h = (Inr v, h\<lparr>arr := arr h\<rparr>)"
    using False get0 set0 ys by (simp add: push_pop_def is_empty_def Let_def)
  then show ?thesis by blast
qed

lemma after_call_shape: "\<exists>ys. after_call c h = h\<lparr>arr := ys\<rparr>"
proof (cases c)
  case (Push v)
  have "\<exists>ys. push v h = (Inr (), h\<lparr>arr := ys\<rparr>)"
    using heapify_up_returns[of "length (arr h)" "h\<lparr>arr := arr h @ [v]\<rparr>"]
    by (auto simp: push_def Let_def)
  then show ?thesis using Push by auto
next
  case Pop
  show ?thesis
  proof (cases "arr h = []")
    case True
    then have "pop h = (Inl (IndexError ''Pop from empty heap''), h\<lparr>arr := arr h\<rparr>)"
      by (simp add: pop_def is_empty_def)
    then show ?thesis using Pop by (metis after_call.simps(2) snd_conv)
  next
    case False
    then show ?thesis using pop_returns[OF False] Pop by auto
  qed
next
  case (PushPop v)
  then show ?thesis using push_pop_returns[of v h] by auto
next
  case (Replace oldValue newValue)
  show ?thesis
  proof (cases "oldValue \<in> set (arr h)")
    case True
    then show ?thesis using replace_returns[OF True, of newValue] Replace by auto
  next
    case False
    then have "snd (replace oldValue newValue h) = h\<lparr>arr := arr h\<rparr>"
      using list_index_None[of "arr h" oldValue] by (simp add: replace_def)
    then show ?thesis using Replace by (metis after_call.simps(4))
  qed
next
  case Clear
  then show ?thesis by (auto simp: clear_def)
next
  case BuildHeap
  then show ?thesis using build_heap_heap[of h] by auto
qed

lemma calls_obj_view:
  "arr_ref ob < length s \<Longrightarrow>
   heap_view ob (calls_obj cs ob s) = fold after_call cs (heap_view ob s)"
proof (induction cs arbitrary: s)
  case Nil
  then show ?case by simp
next
  case (Cons c cs)
  obtain ys where ys: "after_call c (heap_view ob s) = (heap_view ob s)\<lparr>arr := ys\<rparr>"
    using after_call_shape by blast
  have "heap_view ob (call_obj c ob s) = after_call c (heap_view ob s)"
    using Cons.prems ys by (simp add: call_obj_def heap_view_def)
  moreover have "arr_ref ob < length (call_obj c ob s)"
    using Cons.prems by (simp add: call_obj_def)
  ultimately show ?case using Cons.IH[of "call_obj c ob s"] by simp
qed

lemma init_obj_shape:
  assumes "a < length s"
  shows "\<exists>ys. init_obj a isMinHeap s
            = (Inr (), \<lparr>arr_ref = length s, min_flag = isMinHeap\<rparr>, s @ [ys])
          \<and> init (s ! a) isMinHeap = (Inr (), \<lparr>arr = ys, is_min_heap = isMinHeap\<rparr>)"
proof -
  obtain ys where ys: "build_heap \<lparr>arr = s ! a, is_min_heap = isMinHeap\<rparr>
      = (Inr (), \<lparr>arr = ys, is_min_heap = isMinHeap\<rparr>)"
    using build_heap_heap[of "\<lparr>arr = s ! a, is_min_heap = isMinHeap\<rparr>"] by auto
  then have "init_obj a isMinHeap s
            = (Inr (), \<lparr>arr_ref = length s, min_flag = isMinHeap\<rparr>, s @ [ys])"
    by (simp add: init_obj_def list_copy_def heap_view_def Let_def)
  then show ?thesis using ys by (auto simp: init_def)
qed

text \<open>
  C8 (no list is shared). Construction binds \<open>_arr\<close> to a new list, at an address that is
  not the address of the caller's list (nor any address the caller held), holding what
  \<open>__init__\<close> computes from the caller's elements; the caller's list is as it was, and it
  stays so after any sequence of public mutating calls on the heap, while the heap's own
  list follows the calls. \<open>items\<close> returns the address of a new list that holds the elements
  of the heap's list in the same order, and whatever is written to that list afterwards,
  the heap's list is as it was.
\<close>

theorem heap_list_is_not_shared:
  "a < length s \<longrightarrow>
     (\<exists>ob s1. init_obj a isMinHeap s = (Inr (), ob, s1)
        \<and> arr_ref ob \<noteq> a \<and> length s \<le> arr_ref ob \<and> arr_ref ob < length s1
        \<and> init (s ! a) isMinHeap = (Inr (), heap_view ob s1)
        \<and> s1 ! a = s ! a
        \<and> calls_obj cs ob s1 ! a = s ! a
        \<and> heap_view ob (calls_obj cs ob s1) = fold after_call cs (heap_view ob s1)
        \<and> (\<exists>c s2. items_obj ob (calls_obj cs ob s1) = (c, s2)
              \<and> c \<noteq> arr_ref ob \<and> c \<noteq> a
              \<and> s2 ! c = items (heap_view ob (calls_obj cs ob s1))
              \<and> heap_view ob s2 = heap_view ob (calls_obj cs ob s1)
              \<and> heap_view ob (s2[c := zs]) = heap_view ob (calls_obj cs ob s1)))"
proof (intro impI)
  assume a: "a < length s"
  from init_obj_shape[OF a, of isMinHeap]
  obtain ys where ys: "init_obj a isMinHeap s
            = (Inr (), \<lparr>arr_ref = length s, min_flag = isMinHeap\<rparr>, s @ [ys])"
     "init (s ! a) isMinHeap = (Inr (), \<lparr>arr = ys, is_min_heap = isMinHeap\<rparr>)" by blast
  define ob where "ob = \<lparr>arr_ref = length s, min_flag = isMinHeap\<rparr>"
  define s1 where "s1 = s @ [ys]"
  define t where "t = calls_obj cs ob s1"
  have r: "arr_ref ob = length s" by (simp add: ob_def)
  have f: "length t = length s1" "t ! a = s1 ! a"
    using calls_obj_frame[of cs ob s1 a] a r by (simp_all add: t_def)
  have l1: "length s1 = Suc (length s)" by (simp add: s1_def)
  have v: "heap_view ob t = fold after_call cs (heap_view ob s1)"
    unfolding t_def using calls_obj_view[of ob s1 cs] r l1 by simp
  have i1: "init_obj a isMinHeap s = (Inr (), ob, s1)" using ys(1) by (simp add: ob_def s1_def)
  have i2: "init (s ! a) isMinHeap = (Inr (), heap_view ob s1)"
    using ys(2) by (simp add: heap_view_def ob_def s1_def)
  have sa: "s1 ! a = s ! a" using a by (simp add: s1_def nth_append)
  have it: "items_obj ob t = (length t, t @ [t ! arr_ref ob])"
    by (simp add: items_obj_def list_copy_def)
  let ?c = "length t" and ?s2 = "t @ [t ! arr_ref ob]"
  have c: "?c \<noteq> arr_ref ob" "?c \<noteq> a" using f(1) l1 r a by auto
  have rt: "arr_ref ob < length t" using f(1) l1 r by simp
  have c1: "?s2 ! ?c = items (heap_view ob t)" by (simp add: items_def heap_view_def)
  have c2: "heap_view ob ?s2 = heap_view ob t" using rt by (simp add: heap_view_def nth_append)
  have c3: "heap_view ob (?s2[?c := zs]) = heap_view ob t"
    using rt c(1) by (simp add: heap_view_def nth_append)
  show "\<exists>ob s1. init_obj a isMinHeap s = (Inr (), ob, s1)
        \<and> arr_ref ob \<noteq> a \<and> length s \<le> arr_ref ob \<and> arr_ref ob < length s1
        \<and> init (s ! a) isMinHeap = (Inr (), heap_view ob s1)
        \<and> s1 ! a = s ! a
        \<and> calls_obj cs ob s1 ! a = s ! a
        \<and> heap_view ob (calls_obj cs ob s1) = fold after_call cs (heap_view ob s1)
        \<and> (\<exists>c s2. items_obj ob (calls_obj cs ob s1) = (c, s2)
              \<and> c \<noteq> arr_ref ob \<and> c \<noteq> a
              \<and> s2 ! c = items (heap_view ob (calls_obj cs ob s1))
              \<and> heap_view ob s2 = heap_view ob (calls_obj cs ob s1)
              \<and> heap_view ob (s2[c := zs]) = heap_view ob (calls_obj cs ob s1))"
    apply (rule exI[of _ ob], rule exI[of _ s1])
    apply (fold t_def)
    using i1 i2 sa f(2) v it c c1 c2 c3 r l1 a
    apply (intro conjI exI[of _ ?c] exI[of _ ?s2])
                apply simp_all
    done
qed

theorem heap_list_is_not_shared_witness:
  "(0::nat) < length [[5, 3, 8, 1 :: int]]
   \<and> (\<exists>ob s1. init_obj 0 True [[5, 3, 8, 1]] = (Inr (), ob, s1)
        \<and> arr_ref ob \<noteq> 0
        \<and> s1 ! 0 = [[5, 3, 8, 1]] ! 0
        \<and> calls_obj [Pop, Push 7] ob s1 ! 0 = [[5, 3, 8, 1]] ! 0)"
proof -
  have len: "(0::nat) < length [[5, 3, 8, 1 :: int]]" by simp
  from heap_list_is_not_shared[of 0 "[[5, 3, 8, 1]]" True "[Pop, Push 7]"] len
  show ?thesis by blast
qed

end
